theory Spec2Isabelle
  imports Complex_Main "HOL-Library.Word"
begin

unbundle bit_operations_syntax

section \<open>A lossy packet channel with an adaptive error rate\<close>

text \<open>
  The development embeds \<^verbatim>\<open>src/packet.py\<close> (the packet codec) and
  \<^verbatim>\<open>src/simulation.py\<close> (class \<^verbatim>\<open>NetworkSimulator\<close>) and states the
  properties of the specification over the embedding.

  Conventions of the embedding.
  \<^item> A Python \<^verbatim>\<open>float\<close> is an exact rational (\<^typ>\<open>rat\<close>). Comparisons,
    \<^verbatim>\<open>max\<close> and \<^verbatim>\<open>min\<close> are exact on floats as well; the products by
    \<^verbatim>\<open>0.8\<close> and \<^verbatim>\<open>1.2\<close> and the quotient \<^verbatim>\<open>sum / window\<close> are exact here
    and rounded to binary64 in Python.
  \<^item> An exception is a value of \<^typ>\<open>'e + 'a\<close>, \<open>Inl\<close> the raised exception.
  \<^item> The attributes of a \<^verbatim>\<open>NetworkSimulator\<close> are the fields of a record that is
    passed in and returned; the clock \<^verbatim>\<open>env.now\<close> of the simpy environment is one
    more field.
  \<^item> What the code takes from outside (the values \<^verbatim>\<open>random\<close> draws, the time at
    which the scheduler resumes an attempt, whether writing the statistics files
    fails) is an argument.
  \<^item> Calls of \<^verbatim>\<open>logging\<close> are left out: they change no attribute.
\<close>

subsection \<open>Exceptions and values\<close>

datatype py_error = TypeError | ValueError | KeyError | IndexError | ZeroDivisionError
  | OSError | UnicodeDecodeError | UnicodeEncodeError | JSONDecodeError | RecursionError

text \<open>
  A \<^verbatim>\<open>bytes\<close> object is a list of bytes, a \<^verbatim>\<open>str\<close> the list of its code points.
  \<open>ord\<close>, \<open>str\<close> and \<open>bytes\<close> write the literals of the source.
\<close>

type_synonym byte = "8 word"

type_synonym pystr = "nat list"

abbreviation ord :: "char \<Rightarrow> nat" where
  "ord \<equiv> of_char"

abbreviation str :: "string \<Rightarrow> pystr" where
  "str \<equiv> map of_char"

abbreviation bytes :: "string \<Rightarrow> byte list" where
  "bytes \<equiv> map of_char"

abbreviation backslash :: nat where
  "backslash \<equiv> of_char (CHR 0x5C)"

text \<open>
  The values a packet carries and \<^verbatim>\<open>json.loads\<close> returns. A \<^verbatim>\<open>float\<close> is the
  text of a literal that denotes it (its \<^verbatim>\<open>repr\<close> for a payload, the literal read
  for a parsed number; the binary64 value is not computed, so two literals of one float
  are two values here). A \<^verbatim>\<open>dict\<close> is the list of its items in insertion order.
  \<open>PObject\<close> is any object \<^verbatim>\<open>json\<close> has no encoding for (a set, a
  \<^verbatim>\<open>bytes\<close>, an instance of a class).
\<close>

datatype pyval = PNone | PBool bool | PInt int | PFloat pystr | PStr pystr
  | PList "pyval list" | PTuple "pyval list" | PDict "(pyval \<times> pyval) list" | PObject nat

section \<open>The standard library, as far as \<^verbatim>\<open>packet.py\<close> uses it\<close>

text \<open>
  \<^verbatim>\<open>Packet.encode\<close> is \<^verbatim>\<open>json.dumps({"data": self.data}).encode()\<close> and
  \<^verbatim>\<open>Packet.decode\<close> is \<^verbatim>\<open>json.loads(encoded_data.decode())["data"]\<close>. The
  functions of this section model the \<^verbatim>\<open>json\<close> module of CPython 3.11 with its
  default arguments (the encoder and the scanner written in C) and the UTF-8 codec.

  Two limits of the interpreter are part of the model.
  \<^item> The conversion between an \<^verbatim>\<open>int\<close> and its decimal text raises
    \<^verbatim>\<open>ValueError\<close> for more than \<^verbatim>\<open>sys.get_int_max_str_digits()\<close> digits, 4300
    unless the program changes it (\<^verbatim>\<open>packet.py\<close> and \<^verbatim>\<open>simulation.py\<close> do not).
  \<^item> The encoder and the scanner enter every list and every dictionary, an empty one
    too, by a recursive call, and the call raises \<^verbatim>\<open>RecursionError\<close> when the stack
    of the interpreter is as deep as \<^verbatim>\<open>sys.getrecursionlimit()\<close> allows. How deep
    the stack is when \<^verbatim>\<open>json\<close> is called is decided outside of \<^verbatim>\<open>packet.py\<close>:
    the argument \<open>depth\<close> of the functions below is the number of lists and
    dictionaries, one inside the other, that the interpreter lets \<^verbatim>\<open>json\<close> enter at
    this call. An exception other than \<^verbatim>\<open>RecursionError\<close> is given by its class on
    a stack that has room for raising it.
\<close>

subsection \<open>\<^verbatim>\<open>json.dumps\<close>\<close>

text \<open>
  With \<^verbatim>\<open>ensure_ascii\<close>, a character of a string other than a printable ASCII
  character is written as an escape, one beyond the basic plane as the escapes of
  its surrogate pair.
\<close>

definition hexdigit :: "nat \<Rightarrow> nat" where
  "hexdigit d = (if d < 10 then ord CHR ''0'' + d else ord CHR ''a'' + (d - 10))"

definition hex4 :: "nat \<Rightarrow> pystr" where
  "hex4 n = map hexdigit [n div 4096 mod 16, n div 256 mod 16, n div 16 mod 16, n mod 16]"

definition escape_char :: "nat \<Rightarrow> pystr" where
  \<open>escape_char c =
     (if c = ord CHR ''"'' then [backslash, ord CHR ''"'']
      else if c = backslash then [backslash, backslash]
      else if c = 10 then [backslash, ord CHR ''n'']
      else if c = 13 then [backslash, ord CHR ''r'']
      else if c = 9 then [backslash, ord CHR ''t'']
      else if c = 8 then [backslash, ord CHR ''b'']
      else if c = 12 then [backslash, ord CHR ''f'']
      else if 32 \<le> c \<and> c \<le> 126 then [c]
      else if c < 0x10000 then [backslash, ord CHR ''u''] @ hex4 c
      else [backslash, ord CHR ''u''] @ hex4 (0xD800 + (c - 0x10000) div 1024)
         @ [backslash, ord CHR ''u''] @ hex4 (0xDC00 + (c - 0x10000) mod 1024))\<close>

definition encode_basestring_ascii :: "pystr \<Rightarrow> pystr" where
  \<open>encode_basestring_ascii s = ord CHR ''"'' # concat (map escape_char s) @ [ord CHR ''"'']\<close>

fun nat_repr :: "nat \<Rightarrow> pystr" where
  "nat_repr n = (if n < 10 then [ord CHR ''0'' + n]
                 else nat_repr (n div 10) @ [ord CHR ''0'' + n mod 10])"

declare nat_repr.simps [simp del]

text \<open>\<^verbatim>\<open>int.__repr__\<close>: the digits are counted without the sign.\<close>

definition int_max_str_digits :: nat where
  "int_max_str_digits = 4300"

definition int_repr :: "int \<Rightarrow> py_error + pystr" where
  "int_repr i =
     (if int_max_str_digits < length (nat_repr (nat \<bar>i\<bar>)) then Inl ValueError
      else Inr (if i < 0 then ord CHR ''-'' # nat_repr (nat \<bar>i\<bar>) else nat_repr (nat \<bar>i\<bar>)))"

fun join :: "pystr \<Rightarrow> pystr list \<Rightarrow> pystr" where
  "join sep [] = []"
| "join sep [x] = x"
| "join sep (x # y # ys) = x @ sep @ join sep (y # ys)"

definition key_text :: "pyval \<Rightarrow> py_error + pystr" where
  "key_text k = (case k of
       PStr s \<Rightarrow> Inr s
     | PFloat l \<Rightarrow> Inr l
     | PBool b \<Rightarrow> Inr (if b then str ''true'' else str ''false'')
     | PNone \<Rightarrow> Inr (str ''null'')
     | PInt i \<Rightarrow> int_repr i
     | _ \<Rightarrow> Inl TypeError)"

text \<open>
  The encoder: \<open>depth\<close> is the number of lists and dictionaries it can still enter.
  The items of a list or dictionary are encoded one level further in.
\<close>

fun json_dumps :: "nat \<Rightarrow> pyval \<Rightarrow> py_error + pystr"
  and dumps_items :: "nat \<Rightarrow> pyval list \<Rightarrow> py_error + pystr list"
  and dumps_pairs :: "nat \<Rightarrow> (pyval \<times> pyval) list \<Rightarrow> py_error + pystr list"
where
  "json_dumps depth PNone = Inr (str ''null'')"
| "json_dumps depth (PBool b) = Inr (if b then str ''true'' else str ''false'')"
| "json_dumps depth (PInt i) = int_repr i"
| "json_dumps depth (PFloat l) = Inr l"
| "json_dumps depth (PStr s) = Inr (encode_basestring_ascii s)"
| "json_dumps depth (PList xs) =
     (if depth = 0 then Inl RecursionError
      else case dumps_items (depth - 1) xs of Inl e \<Rightarrow> Inl e
           | Inr ts \<Rightarrow> Inr (str ''['' @ join (str '', '') ts @ str '']''))"
| "json_dumps depth (PTuple xs) =
     (if depth = 0 then Inl RecursionError
      else case dumps_items (depth - 1) xs of Inl e \<Rightarrow> Inl e
           | Inr ts \<Rightarrow> Inr (str ''['' @ join (str '', '') ts @ str '']''))"
| "json_dumps depth (PDict kvs) =
     (if depth = 0 then Inl RecursionError
      else case dumps_pairs (depth - 1) kvs of Inl e \<Rightarrow> Inl e
           | Inr ts \<Rightarrow> Inr (str ''{'' @ join (str '', '') ts @ str ''}''))"
| "json_dumps depth (PObject a) = Inl TypeError"
| "dumps_items depth [] = Inr []"
| "dumps_items depth (x # xs) =
     (case json_dumps depth x of Inl e \<Rightarrow> Inl e
      | Inr t \<Rightarrow> (case dumps_items depth xs of Inl e \<Rightarrow> Inl e | Inr ts \<Rightarrow> Inr (t # ts)))"
| "dumps_pairs depth [] = Inr []"
| "dumps_pairs depth (kv # kvs) =
     (case key_text (fst kv) of Inl e \<Rightarrow> Inl e
      | Inr k \<Rightarrow>
         (case json_dumps depth (snd kv) of Inl e \<Rightarrow> Inl e
          | Inr t \<Rightarrow>
             (case dumps_pairs depth kvs of Inl e \<Rightarrow> Inl e
              | Inr ts \<Rightarrow> Inr ((encode_basestring_ascii k @ str '': '' @ t) # ts))))"

subsection \<open>\<^verbatim>\<open>str.encode\<close> and \<^verbatim>\<open>bytes.decode\<close>: UTF-8, strict\<close>

definition utf8_char :: "nat \<Rightarrow> py_error + byte list" where
  "utf8_char c =
     (if c < 0x80 then Inr [of_nat c]
      else if c < 0x800 then Inr [of_nat (0xC0 + c div 64), of_nat (0x80 + c mod 64)]
      else if 0xD800 \<le> c \<and> c \<le> 0xDFFF then Inl UnicodeEncodeError
      else if c < 0x10000 then
        Inr [of_nat (0xE0 + c div 4096), of_nat (0x80 + c div 64 mod 64), of_nat (0x80 + c mod 64)]
      else if c < 0x110000 then
        Inr [of_nat (0xF0 + c div 262144), of_nat (0x80 + c div 4096 mod 64),
             of_nat (0x80 + c div 64 mod 64), of_nat (0x80 + c mod 64)]
      else Inl UnicodeEncodeError)"

fun utf8_encode :: "pystr \<Rightarrow> py_error + byte list" where
  "utf8_encode [] = Inr []"
| "utf8_encode (c # cs) =
     (case utf8_char c of Inl e \<Rightarrow> Inl e
      | Inr bs \<Rightarrow> (case utf8_encode cs of Inl e \<Rightarrow> Inl e | Inr rest \<Rightarrow> Inr (bs @ rest)))"

definition cont :: "byte \<Rightarrow> bool" where
  "cont b \<longleftrightarrow> 0x80 \<le> b \<and> b \<le> 0xBF"

definition low6 :: "byte \<Rightarrow> nat" where
  "low6 b = unat b mod 64"

text \<open>the code point a sequence starts with, and the number of continuation bytes it has\<close>

definition utf8_head :: "byte \<Rightarrow> byte list \<Rightarrow> py_error + (nat \<times> nat)" where
  "utf8_head b bs =
     (if b < 0x80 then Inr (unat b, 0)
      else if 0xC2 \<le> b \<and> b \<le> 0xDF then
        (case bs of
           b1 # r \<Rightarrow>
             if cont b1 then Inr ((unat b mod 32) * 64 + low6 b1, 1)
             else Inl UnicodeDecodeError
         | _ \<Rightarrow> Inl UnicodeDecodeError)
      else if 0xE0 \<le> b \<and> b \<le> 0xEF then
        (case bs of
           b1 # b2 # r \<Rightarrow>
             if cont b1 \<and> cont b2 \<and> (b = 0xE0 \<longrightarrow> 0xA0 \<le> b1) \<and> (b = 0xED \<longrightarrow> b1 \<le> 0x9F)
             then Inr (((unat b mod 16) * 64 + low6 b1) * 64 + low6 b2, 2)
             else Inl UnicodeDecodeError
         | _ \<Rightarrow> Inl UnicodeDecodeError)
      else if 0xF0 \<le> b \<and> b \<le> 0xF4 then
        (case bs of
           b1 # b2 # b3 # r \<Rightarrow>
             if cont b1 \<and> cont b2 \<and> cont b3 \<and> (b = 0xF0 \<longrightarrow> 0x90 \<le> b1)
                \<and> (b = 0xF4 \<longrightarrow> b1 \<le> 0x8F)
             then Inr ((((unat b mod 8) * 64 + low6 b1) * 64 + low6 b2) * 64 + low6 b3, 3)
             else Inl UnicodeDecodeError
         | _ \<Rightarrow> Inl UnicodeDecodeError)
      else Inl UnicodeDecodeError)"

fun utf8_decode :: "byte list \<Rightarrow> py_error + pystr" where
  "utf8_decode [] = Inr []"
| "utf8_decode (b # bs) =
     (case utf8_head b bs of Inl e \<Rightarrow> Inl e
      | Inr (c, n) \<Rightarrow>
          (case utf8_decode (drop n bs) of Inl e \<Rightarrow> Inl e | Inr cs \<Rightarrow> Inr (c # cs)))"


subsection \<open>\<^verbatim>\<open>json.loads\<close>\<close>

definition is_ws :: "nat \<Rightarrow> bool" where
  "is_ws c \<longleftrightarrow> c = 32 \<or> c = 9 \<or> c = 10 \<or> c = 13"

definition skip_ws :: "pystr \<Rightarrow> pystr" where
  "skip_ws s = dropWhile is_ws s"

definition is_digit :: "nat \<Rightarrow> bool" where
  "is_digit c \<longleftrightarrow> ord CHR ''0'' \<le> c \<and> c \<le> ord CHR ''9''"

definition hexval :: "nat \<Rightarrow> nat option" where
  "hexval c =
     (if ord CHR ''0'' \<le> c \<and> c \<le> ord CHR ''9'' then Some (c - ord CHR ''0'')
      else if ord CHR ''a'' \<le> c \<and> c \<le> ord CHR ''f'' then Some (c - ord CHR ''a'' + 10)
      else if ord CHR ''A'' \<le> c \<and> c \<le> ord CHR ''F'' then Some (c - ord CHR ''A'' + 10)
      else None)"

text \<open>four hexadecimal digits at the head of the text\<close>

definition parse_hex4 :: "pystr \<Rightarrow> nat option" where
  "parse_hex4 s =
     (case s of
        a # b # c # d # r \<Rightarrow>
          (case (hexval a, hexval b, hexval c, hexval d) of
             (Some x, Some y, Some z, Some w) \<Rightarrow> Some (((x * 16 + y) * 16 + z) * 16 + w)
           | _ \<Rightarrow> None)
      | _ \<Rightarrow> None)"

definition unescape :: "nat \<Rightarrow> nat option" where
  \<open>unescape e =
     (if e = ord CHR ''"'' \<or> e = backslash \<or> e = ord CHR ''/'' then Some e
      else if e = ord CHR ''b'' then Some 8
      else if e = ord CHR ''f'' then Some 12
      else if e = ord CHR ''n'' then Some 10
      else if e = ord CHR ''r'' then Some 13
      else if e = ord CHR ''t'' then Some 9
      else None)\<close>

text \<open>
  an escape after the backslash: the character it stands for and the number of
  characters of the escape
\<close>

definition scan_escape :: "pystr \<Rightarrow> (nat \<times> nat) option" where
  "scan_escape s =
     (case s of
        [] \<Rightarrow> None
      | e # r \<Rightarrow>
          if e = ord CHR ''u'' then
            (case parse_hex4 r of
               None \<Rightarrow> None
             | Some u \<Rightarrow>
                 if 0xD800 \<le> u \<and> u \<le> 0xDBFF \<and> take 2 (drop 4 r) = [backslash, ord CHR ''u'']
                 then
                   (case parse_hex4 (drop 6 r) of
                      Some u2 \<Rightarrow>
                        if 0xDC00 \<le> u2 \<and> u2 \<le> 0xDFFF
                        then Some (0x10000 + (u - 0xD800) * 1024 + (u2 - 0xDC00), 11)
                        else Some (u, 5)
                    | None \<Rightarrow> Some (u, 5))
                 else Some (u, 5))
          else (case unescape e of None \<Rightarrow> None | Some c \<Rightarrow> Some (c, 1)))"

text \<open>the text of a string after its opening quote, and what follows the closing quote\<close>

fun scanstring :: "pystr \<Rightarrow> py_error + (pystr \<times> pystr)" where
  "scanstring [] = Inl JSONDecodeError"
| \<open>scanstring (c # cs) =
     (if c = ord CHR ''"'' then Inr ([], cs)
      else if c = backslash then
        (case scan_escape cs of
           None \<Rightarrow> Inl JSONDecodeError
         | Some (x, n) \<Rightarrow>
             (case scanstring (drop n cs) of
                Inl e \<Rightarrow> Inl e
              | Inr (t, r) \<Rightarrow> Inr (x # t, r)))
      else if c \<le> 0x1F then Inl JSONDecodeError
      else (case scanstring cs of Inl e \<Rightarrow> Inl e | Inr (t, r) \<Rightarrow> Inr (c # t, r)))\<close>

text \<open>the digits at the head of the text, and the rest\<close>

definition digits :: "pystr \<Rightarrow> pystr" where
  "digits s = takeWhile is_digit s"

definition digits_value :: "pystr \<Rightarrow> nat" where
  "digits_value ds = foldl (\<lambda>n d. 10 * n + (d - ord CHR ''0'')) 0 ds"

text \<open>
  a number: the length of the integer part (sign included), of the fraction and of the
  exponent, \<open>None\<close> where no number starts
\<close>

definition number_parts :: "pystr \<Rightarrow> (nat \<times> nat \<times> nat) option" where
  "number_parts s =
     (let sign = (if take 1 s = str ''-'' then 1 else 0);
          s1 = drop sign s;
          int_len = (if take 1 s1 = str ''0'' then 1 else length (digits s1))
      in if int_len = 0 then None
         else
           let s2 = drop int_len s1;
               frac_len = (if take 1 s2 = str ''.'' \<and> digits (drop 1 s2) \<noteq> []
                           then 1 + length (digits (drop 1 s2)) else 0);
               s3 = drop frac_len s2;
               esign = (if take 1 (drop 1 s3) = str ''-'' \<or> take 1 (drop 1 s3) = str ''+''
                        then 1 else 0);
               exp_len = (if (take 1 s3 = str ''e'' \<or> take 1 s3 = str ''E'')
                             \<and> digits (drop (1 + esign) s3) \<noteq> []
                          then 1 + esign + length (digits (drop (1 + esign) s3)) else 0)
           in Some (sign + int_len, frac_len, exp_len))"

text \<open>
  A literal without fraction and exponent is read by \<^verbatim>\<open>int\<close>, which counts its
  digits without the sign.
\<close>

definition match_number :: "pystr \<Rightarrow> py_error + (pyval \<times> pystr)" where
  "match_number s =
     (case number_parts s of
        None \<Rightarrow> Inl JSONDecodeError
      | Some (i, f, e) \<Rightarrow>
          if f = 0 \<and> e = 0 then
            (if take 1 s = str ''-'' then
               (if int_max_str_digits < i - 1 then Inl ValueError
                else Inr (PInt (- int (digits_value (drop 1 (take i s)))), drop i s))
             else
               (if int_max_str_digits < i then Inl ValueError
                else Inr (PInt (int (digits_value (take i s))), drop i s)))
          else Inr (PFloat (take (i + f + e) s), drop (i + f + e) s))"

definition starts :: "string \<Rightarrow> pystr \<Rightarrow> bool" where
  "starts w s \<longleftrightarrow> take (length w) s = str w"

text \<open>\<^verbatim>\<open>d[key] = value\<close> on the pairs of a dict with string keys\<close>

fun dict_set :: "(pyval \<times> pyval) list \<Rightarrow> pyval \<Rightarrow> pyval \<Rightarrow> (pyval \<times> pyval) list" where
  "dict_set [] k v = [(k, v)]"
| "dict_set (kv # kvs) k v = (if fst kv = k then (k, v) # kvs else kv # dict_set kvs k v)"

text \<open>
  The scanner: \<open>depth\<close> is the number of arrays and objects it can still enter.
  \<open>parse_array\<close> and \<open>parse_object\<close> read the items of an array and of an object
  that has been entered, after the items \<open>acc\<close>.
\<close>

function (sequential) scan_once :: "nat \<Rightarrow> pystr \<Rightarrow> py_error + (pyval \<times> pystr)"
  and parse_array :: "nat \<Rightarrow> pystr \<Rightarrow> pyval list \<Rightarrow> py_error + (pyval \<times> pystr)"
  and parse_object ::
    "nat \<Rightarrow> pystr \<Rightarrow> (pyval \<times> pyval) list \<Rightarrow> py_error + (pyval \<times> pystr)"
where
  "scan_once depth [] = Inl JSONDecodeError"
| \<open>scan_once depth (c # cs) =
     (if c = ord CHR ''"'' then
        (case scanstring cs of Inl e \<Rightarrow> Inl e | Inr (t, r) \<Rightarrow> Inr (PStr t, r))
      else if c = ord CHR ''{'' then
        (if depth = 0 then Inl RecursionError
         else if take 1 (skip_ws cs) = str ''}'' then Inr (PDict [], drop 1 (skip_ws cs))
         else parse_object (depth - 1) (skip_ws cs) [])
      else if c = ord CHR ''['' then
        (if depth = 0 then Inl RecursionError
         else if take 1 (skip_ws cs) = str '']'' then Inr (PList [], drop 1 (skip_ws cs))
         else parse_array (depth - 1) (skip_ws cs) [])
      else if starts ''null'' (c # cs) then Inr (PNone, drop 4 (c # cs))
      else if starts ''true'' (c # cs) then Inr (PBool True, drop 4 (c # cs))
      else if starts ''false'' (c # cs) then Inr (PBool False, drop 5 (c # cs))
      else if starts ''NaN'' (c # cs) then Inr (PFloat (str ''NaN''), drop 3 (c # cs))
      else if starts ''Infinity'' (c # cs) then Inr (PFloat (str ''Infinity''), drop 8 (c # cs))
      else if starts ''-Infinity'' (c # cs) then Inr (PFloat (str ''-Infinity''), drop 9 (c # cs))
      else match_number (c # cs))\<close>
| "parse_array depth s acc =
     (case scan_once depth s of
        Inl e \<Rightarrow> Inl e
      | Inr (v, r) \<Rightarrow>
          if length r < length s then
            (if take 1 (skip_ws r) = str '']'' then Inr (PList (acc @ [v]), drop 1 (skip_ws r))
             else if take 1 (skip_ws r) = str '','' then
               parse_array depth (skip_ws (drop 1 (skip_ws r))) (acc @ [v])
             else Inl JSONDecodeError)
          else Inl JSONDecodeError)"
| \<open>parse_object depth s acc =
     (if take 1 s = str ''"'' then
        (case scanstring (drop 1 s) of
           Inl e \<Rightarrow> Inl e
         | Inr (k, r) \<Rightarrow>
             if take 1 (skip_ws r) = str '':'' \<and> length r < length s then
               (case scan_once depth (skip_ws (drop 1 (skip_ws r))) of
                  Inl e \<Rightarrow> Inl e
                | Inr (v, r') \<Rightarrow>
                    if length r' < length s then
                      (if take 1 (skip_ws r') = str ''}'' then
                         Inr (PDict (dict_set acc (PStr k) v), drop 1 (skip_ws r'))
                       else if take 1 (skip_ws r') = str '','' then
                         parse_object depth (skip_ws (drop 1 (skip_ws r')))
                           (dict_set acc (PStr k) v)
                       else Inl JSONDecodeError)
                    else Inl JSONDecodeError)
             else Inl JSONDecodeError)
      else Inl JSONDecodeError)\<close>
  by pat_completeness auto

termination
proof -
  have ws: "length (skip_ws x) \<le> length x" for x
    unfolding skip_ws_def by (rule length_dropWhile_le)
  have next_item: "length (skip_ws (drop (Suc 0) (skip_ws x))) \<le> length x" for x
    using ws [of "drop (Suc 0) (skip_ws x)"] ws [of x] by simp
  show ?thesis
    apply (relation "measure (\<lambda>x. case x of
        Inl (depth, s) \<Rightarrow> 2 * length s
      | Inr (Inl (depth, s, acc)) \<Rightarrow> 2 * length s + 1
      | Inr (Inr (depth, s, acc)) \<Rightarrow> 2 * length s + 1)")
         apply simp_all
    subgoal for depth c cs using ws [of cs] by simp
    subgoal for depth c cs using ws [of cs] by simp
    subgoal for depth s b x y using next_item [of y] by simp
    subgoal for s b x y using next_item [of y] by simp
    subgoal for depth s b x y ba xa ya using next_item [of ya] by simp
    done
qed

declare parse_array.simps [simp del] parse_object.simps [simp del]

text \<open>
  \<^verbatim>\<open>json.loads(s)\<close> for a \<^verbatim>\<open>str\<close>: a byte order mark is refused, white space
  around the value is skipped, and anything after it is an error.
\<close>

definition json_loads :: "nat \<Rightarrow> pystr \<Rightarrow> py_error + pyval" where
  "json_loads depth s =
     (if take 1 s = [0xFEFF] then Inl JSONDecodeError
      else
        (case scan_once depth (skip_ws s) of
           Inl e \<Rightarrow> Inl e
         | Inr (v, r) \<Rightarrow> if skip_ws r = [] then Inr v else Inl JSONDecodeError))"

text \<open>\<^verbatim>\<open>obj[key]\<close> for a \<^verbatim>\<open>str\<close> key\<close>

definition py_getitem :: "pyval \<Rightarrow> pystr \<Rightarrow> py_error + pyval" where
  "py_getitem obj key =
     (case obj of
        PDict kvs \<Rightarrow> (case map_of kvs (PStr key) of None \<Rightarrow> Inl KeyError | Some v \<Rightarrow> Inr v)
      | _ \<Rightarrow> Inl TypeError)"

section \<open>\<^verbatim>\<open>packet.py\<close>\<close>

text \<open>
  \<^verbatim>\<open>Packet.encode\<close>, lines 7 to 9, and \<^verbatim>\<open>Packet.decode\<close>, lines 11 to 18:
  \<open>decode_try\<close> is the body of the \<^verbatim>\<open>try\<close>, and \<open>decode\<close> returns \<^verbatim>\<open>None\<close>
  for every exception of the body (\<^verbatim>\<open>except Exception\<close>; each \<^typ>\<open>py_error\<close> is
  a subclass of \<^verbatim>\<open>Exception\<close>). The first argument is the \<open>depth\<close> that
  \<^verbatim>\<open>json\<close> has at the call.
\<close>

definition encode :: "nat \<Rightarrow> pyval \<Rightarrow> py_error + byte list" where
  "encode depth data =
     (case json_dumps depth (PDict [(PStr (str ''data''), data)]) of
        Inl e \<Rightarrow> Inl e
      | Inr s \<Rightarrow> utf8_encode s)"

definition decode_try :: "nat \<Rightarrow> byte list \<Rightarrow> py_error + pyval" where
  "decode_try depth encoded_data =
     (case utf8_decode encoded_data of
        Inl e \<Rightarrow> Inl e
      | Inr s \<Rightarrow>
          (case json_loads depth s of
             Inl e \<Rightarrow> Inl e
           | Inr data \<Rightarrow> py_getitem data (str ''data'')))"

definition decode :: "nat \<Rightarrow> byte list \<Rightarrow> py_error + pyval" where
  "decode depth encoded_data =
     (case decode_try depth encoded_data of Inl e \<Rightarrow> Inr PNone | Inr v \<Rightarrow> Inr v)"

subsection \<open>The payloads that JSON carries unchanged\<close>





definition ascii :: "pystr \<Rightarrow> bool" where
  "ascii t \<longleftrightarrow> list_all (\<lambda>c. c < 128) t"





section \<open>\<^verbatim>\<open>simulation.py\<close>\<close>

subsection \<open>Simulator state\<close>

text \<open>
  \<^verbatim>\<open>NetworkSimulator.__init__\<close>, lines 19 to 27. The window is a Python \<^verbatim>\<open>int\<close>
  that the constructor sets to 10 and nothing assigns afterwards; it is a \<^typ>\<open>nat\<close>.
\<close>

record simulator =
  env_now :: rat
  error_rate :: rat
  latency_data :: "rat list"
  packet_loss :: "bool list"
  successful_transmissions :: nat
  total_transmissions :: nat
  adaptive_window :: nat
  min_error_rate :: rat
  max_error_rate :: rat

definition init :: "rat \<Rightarrow> rat \<Rightarrow> simulator" where
  "init t r = \<lparr>env_now = t, error_rate = r, latency_data = [], packet_loss = [],
     successful_transmissions = 0, total_transmissions = 0, adaptive_window = 10,
     min_error_rate = 5 / 100, max_error_rate = 5 / 10\<rparr>"

subsection \<open>The adaptive controller\<close>

text \<open>\<^verbatim>\<open>sum(bools)\<close>: \<^verbatim>\<open>True\<close> counts 1 and \<^verbatim>\<open>False\<close> counts 0.\<close>

definition py_sum_bools :: "bool list \<Rightarrow> nat" where
  "py_sum_bools bs = sum_list (map (\<lambda>b. if b then 1 else 0) bs)"

text \<open>
  The slice \<^verbatim>\<open>xs[-w:]\<close> for \<open>w \<ge> 0\<close>: the last \<open>w\<close> elements, all of \<open>xs\<close> when it
  is shorter, and all of \<open>xs\<close> when \<open>w = 0\<close> (\<^verbatim>\<open>xs[-0:]\<close> is \<^verbatim>\<open>xs[0:]\<close>).
\<close>

definition py_last :: "nat \<Rightarrow> 'a list \<Rightarrow> 'a list" where
  "py_last w xs = (if w = 0 then xs else drop (length xs - w) xs)"

text \<open>
  \<^verbatim>\<open>adjust_error_rate\<close>, lines 29 to 36. The division raises
  \<^verbatim>\<open>ZeroDivisionError\<close> for a window of 0, before anything is assigned.
\<close>

definition adjust_error_rate :: "simulator \<Rightarrow> py_error + simulator" where
  "adjust_error_rate s =
     (if length (packet_loss s) \<ge> adaptive_window s then
        (if adaptive_window s = 0 then Inl ZeroDivisionError
         else
           let recent_loss_rate =
                 (of_nat (py_sum_bools (py_last (adaptive_window s) (packet_loss s))) :: rat)
                   / of_nat (adaptive_window s)
           in if recent_loss_rate > 3 / 10 then
                Inr (s\<lparr>error_rate := max (min_error_rate s) (error_rate s * (8 / 10))\<rparr>)
              else if recent_loss_rate < 1 / 10 then
                Inr (s\<lparr>error_rate := min (max_error_rate s) (error_rate s * (12 / 10))\<rparr>)
              else Inr s)
      else Inr s)"

text \<open>
  The controller as section 4.4 of the specification words it:
  \<open>adjust(loss_history, current_rate)\<close> with the window size and the two bounds as
  configuration. This definition follows the specification, not the code.
\<close>

definition spec_adjust :: "nat \<Rightarrow> rat \<Rightarrow> rat \<Rightarrow> bool list \<Rightarrow> rat \<Rightarrow> rat" where
  "spec_adjust window_size lo hi loss_history current_rate =
     (if length loss_history < window_size then current_rate
      else
        let window = drop (length loss_history - window_size) loss_history;
            recent_loss_rate =
              (of_nat (length (filter (\<lambda>lost. lost) window)) :: rat) / of_nat window_size
        in if recent_loss_rate > 3 / 10 then max lo (current_rate * (8 / 10))
           else if recent_loss_rate < 1 / 10 then min hi (current_rate * (12 / 10))
           else current_rate)"

text \<open>
  What can happen to the controller's state: an outcome is appended to the loss history
  (\<^verbatim>\<open>self.packet_loss.append(lost)\<close>, lines 70 and 81), or
  \<^verbatim>\<open>adjust_error_rate\<close> is called. An exception of the call leaves the state as it
  was. \<open>drive\<close> runs any sequence of the two; \<open>feed\<close> is the sequence of
  \<^verbatim>\<open>transmit\<close>, which calls the controller after every outcome it records.
\<close>

datatype ctl_event = Record bool | Adjust

fun ctl_step :: "simulator \<Rightarrow> ctl_event \<Rightarrow> simulator" where
  "ctl_step s (Record lost) = s\<lparr>packet_loss := packet_loss s @ [lost]\<rparr>"
| "ctl_step s Adjust = (case adjust_error_rate s of Inr s' \<Rightarrow> s' | Inl e \<Rightarrow> s)"

definition drive :: "simulator \<Rightarrow> ctl_event list \<Rightarrow> simulator" where
  "drive s evs = foldl ctl_step s evs"

definition feed :: "bool list \<Rightarrow> ctl_event list" where
  "feed bs = concat (map (\<lambda>lost. [Record lost, Adjust]) bs)"

definition rate_in_bounds :: "simulator \<Rightarrow> bool" where
  "rate_in_bounds s \<longleftrightarrow> min_error_rate s \<le> error_rate s \<and> error_rate s \<le> max_error_rate s"

text \<open>
  Three notions for the proofs about the scenario of section 8 of the specification:
  the configuration \<^verbatim>\<open>__init__\<close> sets, the controller's decision as a function of
  the number of losses in a full window of 10, and the rationals with a finite decimal
  expansion.
\<close>

definition configured :: "simulator \<Rightarrow> bool" where
  "configured s \<longleftrightarrow>
     adaptive_window s = 10 \<and> min_error_rate s = 1 / 20 \<and> max_error_rate s = 1 / 2"

definition band :: "nat \<Rightarrow> rat \<Rightarrow> rat" where
  "band c r = (if 3 < c then max (1 / 20) (r * (8 / 10))
               else if c < 1 then min (1 / 2) (r * (12 / 10)) else r)"

definition decimal :: "rat \<Rightarrow> bool" where
  "decimal r \<longleftrightarrow> (\<exists>(m::int) (k::nat). r = of_int m / 10 ^ k)"

subsection \<open>Corruption\<close>

text \<open>
  What one call of \<^verbatim>\<open>corrupt_data\<close> draws: \<^verbatim>\<open>random.random()\<close>, a number in
  \<open>[0, 1)\<close>; \<^verbatim>\<open>random.randint(0, len(data) - 1)\<close>; and
  \<^verbatim>\<open>random.randint(1, 255)\<close>, a byte other than 0.
\<close>

record draws =
  rand_unit :: rat
  rand_pos :: nat
  rand_mask :: byte

definition draws_ok :: "draws \<Rightarrow> nat \<Rightarrow> bool" where
  "draws_ok d n \<longleftrightarrow> 0 \<le> rand_unit d \<and> rand_unit d < 1 \<and> rand_pos d < n \<and> rand_mask d \<noteq> 0"

text \<open>
  \<^verbatim>\<open>corrupt_data\<close>, lines 38 to 52, on the value of \<^verbatim>\<open>data\<close>. An index out of
  range would raise \<^verbatim>\<open>IndexError\<close> at line 46, and the handler returns \<^verbatim>\<open>data\<close>.
\<close>

definition corrupt_data :: "rat \<Rightarrow> draws \<Rightarrow> byte list \<Rightarrow> byte list" where
  "corrupt_data rate d data =
     (if data = [] then data
      else if rand_unit d < rate then
        (if rand_pos d < length data
         then data[rand_pos d := (data ! rand_pos d) XOR rand_mask d]
         else data)
      else data)"

text \<open>
  The same lines on objects: a heap is the list of the contents of the objects
  allocated so far, an object's address its index, and a new object goes to the end.
  \<^verbatim>\<open>bytearray(data)\<close> and \<^verbatim>\<open>bytes(corrupted)\<close> allocate a copy each, and the
  assignment at line 46 writes into the first copy. The argument \<open>data\<close> is the
  address of an object of the heap, and the result is the address returned and the heap
  after the call.
\<close>

type_synonym heap = "byte list list"

definition alloc :: "heap \<Rightarrow> byte list \<Rightarrow> nat \<times> heap" where
  "alloc h content = (length h, h @ [content])"

definition corrupt_data_obj :: "rat \<Rightarrow> draws \<Rightarrow> heap \<Rightarrow> nat \<Rightarrow> nat \<times> heap" where
  "corrupt_data_obj rate d h data =
     (if h ! data = [] then (data, h)
      else if rand_unit d < rate then
        (let (corrupted, h1) = alloc h (h ! data)
         in if rand_pos d < length (h1 ! corrupted) then
              (let h2 = h1[corrupted :=
                        (h1 ! corrupted)[rand_pos d := (h1 ! corrupted ! rand_pos d) XOR rand_mask d]]
               in alloc h2 (h2 ! corrupted))
            else (data, h1))
      else (data, h))"

subsection \<open>Statistics\<close>

text \<open>
  \<^verbatim>\<open>get_statistics\<close>, lines 138 to 148: the dictionary with the key
  \<^verbatim>\<open>"error"\<close> is \<open>NoData\<close>. \<^verbatim>\<open>save_statistics\<close>, lines 84 to 96, writes two
  files; whether that raises (\<^verbatim>\<open>OSError\<close>) is the argument.
\<close>

datatype statistics = NoData
  | Statistics (stat_total: nat) (stat_successful: nat) (average_latency: rat)
      (loss_rate: rat) (current_error_rate: rat)

definition get_statistics :: "simulator \<Rightarrow> py_error + statistics" where
  "get_statistics s =
     (if latency_data s = [] then Inr NoData
      else if packet_loss s = [] then Inl ZeroDivisionError
      else Inr (Statistics (total_transmissions s) (successful_transmissions s)
             (sum_list (latency_data s) / of_nat (length (latency_data s)))
             (of_nat (py_sum_bools (packet_loss s)) / of_nat (length (packet_loss s)))
             (error_rate s)))"

definition save_statistics :: "bool \<Rightarrow> simulator \<Rightarrow> py_error + unit" where
  "save_statistics io_fails s =
     (case get_statistics s of
        Inl e \<Rightarrow> Inl e
      | Inr stats \<Rightarrow> if io_fails then Inl OSError else Inr ())"

subsection \<open>One transmission\<close>

text \<open>
  An attempt: the time at which the scheduler resumes it after its timeout (line 56),
  the packet's payload, the \<open>depth\<close> that \<^verbatim>\<open>json\<close> has when the attempt calls the
  codec (both calls are made from the frame of \<^verbatim>\<open>transmit\<close>), the draws of
  \<^verbatim>\<open>corrupt_data\<close> and whether writing the statistics fails. simpy advances \<^verbatim>\<open>env.now\<close> only between the steps of
  processes, so from line 58 to the end \<^verbatim>\<open>transmit\<close> runs at one time. No
  process interrupts another, so nothing is raised at the \<^verbatim>\<open>yield\<close>.
\<close>

record attempt =
  resumed_at :: rat
  payload :: pyval
  depth_left :: nat
  rng :: draws
  save_raises :: bool

text \<open>The handler of \<^verbatim>\<open>transmit\<close>, lines 79 to 82.\<close>

definition transmission_error :: "simulator \<Rightarrow> simulator" where
  "transmission_error s =
     s\<lparr>packet_loss := packet_loss s @ [True], total_transmissions := total_transmissions s + 1\<rparr>"

text \<open>Lines 68 to 74: the outcome is recorded.\<close>

definition record_outcome :: "rat \<Rightarrow> pyval \<Rightarrow> simulator \<Rightarrow> simulator" where
  "record_outcome latency decoded_data s =
     (let s1 = s\<lparr>latency_data := latency_data s @ [latency],
                 packet_loss := packet_loss s @ [decoded_data = PNone]\<rparr>;
          s2 = s1\<lparr>total_transmissions := total_transmissions s1 + 1\<rparr>
      in if decoded_data \<noteq> PNone
         then s2\<lparr>successful_transmissions := successful_transmissions s2 + 1\<rparr>
         else s2)"

text \<open>\<^verbatim>\<open>transmit\<close>, lines 58 to 82: the attempt after the scheduler has resumed it.\<close>

definition transmit :: "attempt \<Rightarrow> simulator \<Rightarrow> simulator" where
  "transmit a s =
     (let start_time = env_now s in
      case encode (depth_left a) (payload a) of
        Inl e \<Rightarrow> transmission_error s
      | Inr encoded_data \<Rightarrow>
          if encoded_data = [] then transmission_error s
          else
            let corrupted_data = corrupt_data (error_rate s) (rng a) encoded_data in
            case decode (depth_left a) corrupted_data of
              Inl e \<Rightarrow> transmission_error s
            | Inr decoded_data \<Rightarrow>
                let latency = env_now s - start_time;
                    s1 = record_outcome latency decoded_data s
                in case adjust_error_rate s1 of
                     Inl e \<Rightarrow> transmission_error s1
                   | Inr s2 \<Rightarrow>
                       (case save_statistics (save_raises a) s2 of
                          Inl e \<Rightarrow> transmission_error s2
                        | Inr u \<Rightarrow> s2))"

text \<open>
  The scheduler resumes the attempts one after the other, each at its time; \<open>run\<close>
  takes them in the order in which they are resumed.
\<close>

definition resume :: "simulator \<Rightarrow> attempt \<Rightarrow> simulator" where
  "resume s a = transmit a (s\<lparr>env_now := resumed_at a\<rparr>)"

definition run :: "simulator \<Rightarrow> attempt list \<Rightarrow> simulator" where
  "run s attempts = foldl resume s attempts"

text \<open>An attempt reaches the decode step when \<^verbatim>\<open>packet.encode()\<close> returns.\<close>

definition reaches_decode :: "attempt \<Rightarrow> bool" where
  "reaches_decode a =
     (case encode (depth_left a) (payload a) of Inl e \<Rightarrow> False | Inr bs \<Rightarrow> True)"

subsection \<open>Four attempts\<close>

text \<open>
  A string that is not corrupted (the draw 0.9 is not below the rate); an object
  \<^verbatim>\<open>json\<close> cannot encode; the string \<^verbatim>\<open>"a"\<close> with byte 10 of
  \<^verbatim>\<open>{"data": "a"}\<close>, the letter, XORed with 3; and the first attempt again with
  the statistics files not writable. Each runs on a stack that leaves \<^verbatim>\<open>json\<close> a
  depth of 900.
\<close>

definition attempt_plain :: attempt where
  "attempt_plain = \<lparr>resumed_at = 3 / 10, payload = PStr (str ''a''), depth_left = 900,
     rng = \<lparr>rand_unit = 9 / 10, rand_pos = 0, rand_mask = 1\<rparr>, save_raises = False\<rparr>"

definition attempt_unencodable :: attempt where
  "attempt_unencodable = \<lparr>resumed_at = 4 / 10, payload = PObject 0, depth_left = 900,
     rng = \<lparr>rand_unit = 9 / 10, rand_pos = 0, rand_mask = 1\<rparr>, save_raises = False\<rparr>"

definition attempt_flipped :: attempt where
  "attempt_flipped = \<lparr>resumed_at = 3 / 10, payload = PStr (str ''a''), depth_left = 900,
     rng = \<lparr>rand_unit = 0, rand_pos = 10, rand_mask = 3\<rparr>, save_raises = False\<rparr>"

definition attempt_unsaved :: attempt where
  "attempt_unsaved = \<lparr>resumed_at = 3 / 10, payload = PStr (str ''a''), depth_left = 900,
     rng = \<lparr>rand_unit = 9 / 10, rand_pos = 0, rand_mask = 1\<rparr>, save_raises = True\<rparr>"

section \<open>Properties of the controller\<close>

lemma py_sum_bools_filter: "py_sum_bools bs = length (filter (\<lambda>lost. lost) bs)"
  unfolding py_sum_bools_def by (induction bs) auto

lemma adjust_error_rate_spec:
  "0 < adaptive_window s \<Longrightarrow>
   adjust_error_rate s = Inr (s\<lparr>error_rate :=
     spec_adjust (adaptive_window s) (min_error_rate s) (max_error_rate s)
       (packet_loss s) (error_rate s)\<rparr>)"
  by (simp add: adjust_error_rate_def spec_adjust_def py_sum_bools_filter py_last_def Let_def)

lemma adjust_error_rate_band:
  assumes "adaptive_window s = 10" "10 \<le> length (packet_loss s)"
    and "1 \<le> py_sum_bools (py_last 10 (packet_loss s))"
    and "py_sum_bools (py_last 10 (packet_loss s)) \<le> 3"
  shows "adjust_error_rate s = Inr s"
  using assms by (simp add: adjust_error_rate_def Let_def)

text \<open>
  Claim C1. For every loss history and every current rate, \<^verbatim>\<open>adjust_error_rate\<close>
  computes what the algorithm of the specification computes: the rate is unchanged under
  a full window; over a full window, a recent loss rate above 0.3 gives
  \<open>max min_error_rate (rate * 0.8)\<close>, one below 0.1 gives
  \<open>min max_error_rate (rate * 1.2)\<close>, and anything else leaves the rate unchanged. In
  particular, with the window of 10, one to three losses in the window (recent loss
  rates 0.1 to 0.3, both boundaries included) change nothing.
\<close>

theorem adjust_error_rate_implements_spec:
  "(0 < adaptive_window s \<longrightarrow>
      adjust_error_rate s = Inr (s\<lparr>error_rate :=
        spec_adjust (adaptive_window s) (min_error_rate s) (max_error_rate s)
          (packet_loss s) (error_rate s)\<rparr>)) \<and>
   (adaptive_window s = 10 \<and> 10 \<le> length (packet_loss s) \<and>
    1 \<le> py_sum_bools (py_last 10 (packet_loss s)) \<and>
    py_sum_bools (py_last 10 (packet_loss s)) \<le> 3 \<longrightarrow>
      adjust_error_rate s = Inr s)"
  using adjust_error_rate_spec [of s] adjust_error_rate_band [of s] by blast

theorem adjust_error_rate_implements_spec_witness:
  "adjust_error_rate ((init 0 (1 / 2))
      \<lparr>packet_loss := [True, False, True, False, False, True, False, False, True, False]\<rparr>)
     = Inr ((init 0 (1 / 2))
      \<lparr>packet_loss := [True, False, True, False, False, True, False, False, True, False],
       error_rate := 2 / 5\<rparr>) \<and>
   adjust_error_rate ((init 0 (2 / 5))
      \<lparr>packet_loss := replicate 10 False\<rparr>)
     = Inr ((init 0 (2 / 5))\<lparr>packet_loss := replicate 10 False, error_rate := 12 / 25\<rparr>) \<and>
   adjust_error_rate ((init 0 (1 / 2))
      \<lparr>packet_loss := [True, False, True, False, False, True, False, False, False, False]\<rparr>)
     = Inr ((init 0 (1 / 2))
      \<lparr>packet_loss := [True, False, True, False, False, True, False, False, False, False]\<rparr>)"
  using adjust_error_rate_implements_spec [of "(init 0 (1 / 2))
      \<lparr>packet_loss := [True, False, True, False, False, True, False, False, True, False]\<rparr>"]
    adjust_error_rate_implements_spec [of "(init 0 (2 / 5))\<lparr>packet_loss := replicate 10 False\<rparr>"]
    adjust_error_rate_implements_spec [of "(init 0 (1 / 2))
      \<lparr>packet_loss := [True, False, True, False, False, True, False, False, False, False]\<rparr>"]
  by (simp add: init_def spec_adjust_def py_sum_bools_def py_last_def Let_def)

lemma spec_adjust_bounds:
  assumes "lo \<le> r" "r \<le> hi" "0 \<le> lo"
  shows "lo \<le> spec_adjust w lo hi h r \<and> spec_adjust w lo hi h r \<le> hi"
proof -
  have "r * (8 / 10) \<le> r" using assms by simp
  moreover have "r \<le> r * (12 / 10)" using assms by simp
  ultimately show ?thesis using assms
    by (auto simp: spec_adjust_def Let_def)
qed

lemma ctl_step_inv:
  assumes "0 < adaptive_window s" "0 \<le> min_error_rate s" "rate_in_bounds s"
  shows "adaptive_window (ctl_step s ev) = adaptive_window s \<and>
         min_error_rate (ctl_step s ev) = min_error_rate s \<and>
         max_error_rate (ctl_step s ev) = max_error_rate s \<and> rate_in_bounds (ctl_step s ev)"
proof (cases ev)
  case (Record b)
  then show ?thesis using assms by (simp add: rate_in_bounds_def)
next
  case Adjust
  have b: "min_error_rate s \<le> error_rate s" "error_rate s \<le> max_error_rate s"
    using assms by (simp_all add: rate_in_bounds_def)
  from spec_adjust_bounds [OF b assms(2), of "adaptive_window s" "packet_loss s"] show ?thesis
    using Adjust by (simp add: adjust_error_rate_spec [OF assms(1)] rate_in_bounds_def)
qed

lemma drive_inv:
  "0 < adaptive_window s \<Longrightarrow> 0 \<le> min_error_rate s \<Longrightarrow> rate_in_bounds s \<Longrightarrow>
   adaptive_window (drive s evs) = adaptive_window s \<and>
   min_error_rate (drive s evs) = min_error_rate s \<and>
   max_error_rate (drive s evs) = max_error_rate s \<and> rate_in_bounds (drive s evs)"
  unfolding drive_def
proof (induction evs arbitrary: s)
  case Nil
  then show ?case by simp
next
  case (Cons ev evs)
  from ctl_step_inv [OF Cons.prems, of ev] Cons.prems
  have "0 < adaptive_window (ctl_step s ev)" "0 \<le> min_error_rate (ctl_step s ev)"
    "rate_in_bounds (ctl_step s ev)" by simp_all
  from Cons.IH [OF this] ctl_step_inv [OF Cons.prems, of ev] show ?case by simp
qed

text \<open>
  Claim C2, as stated: the rate lies within \<open>[min_error_rate, max_error_rate]\<close> for
  every rate given to the constructor, already after construction. The constructor
  stores the rate it is given (line 20) and clamps nothing: after
  \<^verbatim>\<open>NetworkSimulator(env, error_rate=0.9)\<close> the rate is 0.9, above the maximum 0.5.
\<close>

theorem rate_bounds_after_construction_counterexample:
  "\<not> (min_error_rate (init 0 (9 / 10)) \<le> error_rate (init 0 (9 / 10)) \<and>
      error_rate (init 0 (9 / 10)) \<le> max_error_rate (init 0 (9 / 10)))"
  by (simp add: init_def)

text \<open>
  Claim C2, amended. For every initial rate \<open>r\<close> with \<open>0.05 \<le> r \<le> 0.5\<close> given to the
  constructor, and for every sequence of recorded outcomes and calls of
  \<^verbatim>\<open>adjust_error_rate\<close>, the bounds stay 0.05 and 0.5 and the rate stays within them;
  the empty sequence is the state right after construction, and every prefix of a
  sequence is a sequence, so this holds at every step.
\<close>

theorem rate_bounds_invariant:
  "1 / 20 \<le> r \<Longrightarrow> r \<le> 1 / 2 \<Longrightarrow>
   min_error_rate (drive (init t r) evs) = 1 / 20 \<and>
   max_error_rate (drive (init t r) evs) = 1 / 2 \<and>
   min_error_rate (drive (init t r) evs) \<le> error_rate (drive (init t r) evs) \<and>
   error_rate (drive (init t r) evs) \<le> max_error_rate (drive (init t r) evs)"
proof -
  assume a: "1 / 20 \<le> r" "r \<le> 1 / 2"
  have "0 < adaptive_window (init t r)" "0 \<le> min_error_rate (init t r)"
    "rate_in_bounds (init t r)"
    using a by (simp_all add: rate_in_bounds_def init_def)
  from drive_inv [OF this, of evs] show ?thesis
    by (simp add: rate_in_bounds_def init_def)
qed

theorem rate_bounds_invariant_witness:
  "(1 / 20 :: rat) \<le> 1 / 10 \<and> (1 / 10 :: rat) \<le> 1 / 2 \<and>
   min_error_rate (drive (init 0 (1 / 10)) (feed (replicate 12 False))) = 1 / 20 \<and>
   max_error_rate (drive (init 0 (1 / 10)) (feed (replicate 12 False))) = 1 / 2 \<and>
   min_error_rate (drive (init 0 (1 / 10)) (feed (replicate 12 False)))
     \<le> error_rate (drive (init 0 (1 / 10)) (feed (replicate 12 False))) \<and>
   error_rate (drive (init 0 (1 / 10)) (feed (replicate 12 False)))
     \<le> max_error_rate (drive (init 0 (1 / 10)) (feed (replicate 12 False)))"
proof -
  have h: "(1 / 20 :: rat) \<le> 1 / 10" "(1 / 10 :: rat) \<le> 1 / 2" by simp_all
  show ?thesis
    using h rate_bounds_invariant [OF h, of 0 "feed (replicate 12 False)"] by simp
qed

subsection \<open>The window-fill scenario\<close>

lemma configured_init: "configured (init t r)"
  by (simp add: configured_def init_def)

lemma feed_Cons: "drive s (feed (b # bs)) = drive (ctl_step (ctl_step s (Record b)) Adjust) (feed bs)"
  by (simp add: drive_def feed_def)

lemma feed_append: "drive s (feed (xs @ ys)) = drive (drive s (feed xs)) (feed ys)"
  by (simp add: drive_def feed_def)

lemma configuredD:
  "configured s \<Longrightarrow> adaptive_window s = 10"
  "configured s \<Longrightarrow> min_error_rate s = 1 / 20"
  "configured s \<Longrightarrow> max_error_rate s = 1 / 2"
  unfolding configured_def by blast+

lemma feed_one:
  assumes "configured s"
  shows "drive s (feed [b]) = s\<lparr>packet_loss := packet_loss s @ [b],
     error_rate := spec_adjust 10 (1 / 20) (1 / 2) (packet_loss s @ [b]) (error_rate s)\<rparr>"
proof -
  let ?s = "s\<lparr>packet_loss := packet_loss s @ [b]\<rparr>"
  have "0 < adaptive_window ?s" by (simp add: configuredD [OF assms])
  from adjust_error_rate_spec [OF this] show ?thesis
    by (simp add: drive_def feed_def configuredD [OF assms])
qed

lemma spec_adjust_short: "length h < 10 \<Longrightarrow> spec_adjust 10 lo hi h r = r"
  by (simp add: spec_adjust_def)

lemma spec_adjust_band:
  "10 \<le> length h \<Longrightarrow>
   spec_adjust 10 (1 / 20) (1 / 2) h r = band (py_sum_bools (drop (length h - 10) h)) r"
  by (simp add: spec_adjust_def band_def Let_def py_sum_bools_filter)

lemma feed_frame:
  "configured s \<Longrightarrow>
   configured (drive s (feed xs)) \<and> packet_loss (drive s (feed xs)) = packet_loss s @ xs"
proof (induction xs arbitrary: s)
  case Nil
  then show ?case by (simp add: drive_def feed_def)
next
  case (Cons b xs)
  let ?s = "drive s (feed [b])"
  have c: "configured ?s" and p: "packet_loss ?s = packet_loss s @ [b]"
    using Cons.prems by (simp_all add: feed_one configured_def)
  have "drive s (feed (b # xs)) = drive ?s (feed xs)"
    using feed_append [of s "[b]" xs] by simp
  with Cons.IH [OF c] p show ?case by simp
qed

lemma feed_snoc_rate:
  assumes "configured s"
  shows "error_rate (drive s (feed (xs @ [b])))
     = spec_adjust 10 (1 / 20) (1 / 2) (packet_loss s @ xs @ [b]) (error_rate (drive s (feed xs)))"
proof -
  from feed_frame [OF assms, of xs]
  have c: "configured (drive s (feed xs))"
    and p: "packet_loss (drive s (feed xs)) = packet_loss s @ xs" by simp_all
  show ?thesis
    unfolding feed_append [of s xs "[b]"] by (simp add: feed_one [OF c] p)
qed

lemma feed_short_rate:
  "configured s \<Longrightarrow> length (packet_loss s) + length xs < 10 \<Longrightarrow>
   error_rate (drive s (feed xs)) = error_rate s"
proof (induction xs rule: rev_induct)
  case Nil
  then show ?case by (simp add: drive_def feed_def)
next
  case (snoc b xs)
  then show ?case by (simp add: feed_snoc_rate spec_adjust_short)
qed

lemma py_sum_bools_append: "py_sum_bools (xs @ ys) = py_sum_bools xs + py_sum_bools ys"
  by (simp add: py_sum_bools_def)

lemma py_sum_bools_Cons: "py_sum_bools (b # bs) = (if b then 1 else 0) + py_sum_bools bs"
  by (simp add: py_sum_bools_def)

lemma py_sum_bools_replicate_False: "py_sum_bools (replicate n False) = 0"
  by (simp add: py_sum_bools_def)

text \<open>The rate after ten outcomes, and after each further outcome that is no loss.\<close>

lemma rate_after_ten:
  assumes "length bs = 10"
  shows "error_rate (drive (init t r) (feed bs)) = band (py_sum_bools bs) r"
proof -
  obtain xs b where bs: "bs = xs @ [b]" using assms by (cases bs rule: rev_cases) auto
  have "error_rate (drive (init t r) (feed xs)) = error_rate (init t r)"
    using assms bs by (intro feed_short_rate configured_init) (simp add: init_def)
  then show ?thesis
    using assms unfolding bs
    by (simp add: feed_snoc_rate configured_init spec_adjust_band) (simp add: init_def)
qed

lemma rate_after_more:
  assumes "length bs = 10" "j < 10"
  shows "error_rate (drive (init t r) (feed (bs @ replicate (Suc j) False)))
     = band (py_sum_bools (drop (Suc j) bs))
         (error_rate (drive (init t r) (feed (bs @ replicate j False))))"
proof -
  have e: "bs @ replicate (Suc j) False = (bs @ replicate j False) @ [False]"
    by (simp add: replicate_append_same)
  have p: "packet_loss (init t r) = []" by (simp add: init_def)
  have "error_rate (drive (init t r) (feed ((bs @ replicate j False) @ [False])))
      = spec_adjust 10 (1 / 20) (1 / 2) (packet_loss (init t r) @ (bs @ replicate j False) @ [False])
          (error_rate (drive (init t r) (feed (bs @ replicate j False))))"
    by (rule feed_snoc_rate [OF configured_init])
  also have "packet_loss (init t r) @ (bs @ replicate j False) @ [False]
      = bs @ replicate (Suc j) False"
    by (simp add: p replicate_append_same)
  also have "spec_adjust 10 (1 / 20) (1 / 2) (bs @ replicate (Suc j) False)
        (error_rate (drive (init t r) (feed (bs @ replicate j False))))
      = band (py_sum_bools (drop (Suc j) bs))
         (error_rate (drive (init t r) (feed (bs @ replicate j False))))"
    using assms
    by (simp add: spec_adjust_band py_sum_bools_append py_sum_bools_Cons
        py_sum_bools_replicate_False)
  finally show ?thesis unfolding e .
qed


lemma py_sum_bools_take_drop: "py_sum_bools (take n xs) + py_sum_bools (drop n xs) = py_sum_bools xs"
  using py_sum_bools_append [of "take n xs" "drop n xs"] by simp

lemma py_sum_bools_pos: "True \<in> set xs \<Longrightarrow> 1 \<le> py_sum_bools xs"
  by (induction xs) (auto simp: py_sum_bools_Cons)

lemma count_with_last:
  assumes "last bs" "n < length bs"
  shows "1 \<le> py_sum_bools (drop n bs)"
proof -
  have "drop n bs \<noteq> []" using assms by simp
  then have "last (drop n bs) \<in> set (drop n bs)" by (rule last_in_set)
  moreover have "last (drop n bs) = last bs" using assms by (simp add: last_drop)
  ultimately show ?thesis using assms by (intro py_sum_bools_pos) simp
qed

lemma count_without_head:
  assumes "hd bs" "bs \<noteq> []" "1 \<le> n"
  shows "py_sum_bools (drop n bs) + 1 \<le> py_sum_bools bs"
proof -
  have "True \<in> set (take n bs)"
    using assms by (cases bs; cases n) auto
  from py_sum_bools_pos [OF this] py_sum_bools_take_drop [of n bs] show ?thesis by simp
qed

lemma decimal_consts: "decimal (1 / 20)" "decimal (1 / 2)" "decimal (2 / 5)"
proof -
  have "(1 / 20 :: rat) = of_int 5 / 10 ^ 2" "(1 / 2 :: rat) = of_int 5 / 10 ^ 1"
    "(2 / 5 :: rat) = of_int 4 / 10 ^ 1" by simp_all
  then show "decimal (1 / 20)" "decimal (1 / 2)" "decimal (2 / 5)"
    unfolding decimal_def by blast+
qed

lemma decimal_scale:
  assumes "decimal r"
  shows "decimal (r * (8 / 10))" "decimal (r * (12 / 10))"
proof -
  from assms obtain m :: int and k :: nat where r: "r = of_int m / 10 ^ k"
    unfolding decimal_def by blast
  have "r * (8 / 10) = of_int (8 * m) / 10 ^ Suc k" "r * (12 / 10) = of_int (12 * m) / 10 ^ Suc k"
    unfolding r by simp_all
  then show "decimal (r * (8 / 10))" "decimal (r * (12 / 10))"
    unfolding decimal_def by blast+
qed

lemma decimal_max_min: "decimal a \<Longrightarrow> decimal b \<Longrightarrow> decimal (max a b) \<and> decimal (min a b)"
  by (simp add: max_def min_def)

lemma decimal_band: "decimal r \<Longrightarrow> decimal (band c r)"
  by (cases "3 < c"; cases "c < 1";
      simp only: band_def if_True if_False decimal_max_min decimal_consts decimal_scale)

lemma not_decimal_third: "\<not> decimal (1 / 3)"
proof
  assume "decimal (1 / 3)"
  then obtain m :: int and k :: nat where "(1 / 3 :: rat) = of_int m / 10 ^ k"
    unfolding decimal_def by blast
  then have "(of_int (10 ^ k) :: rat) = of_int (3 * m)"
    by (simp add: field_simps)
  then have "(10 :: int) ^ k = 3 * m" by (simp only: of_int_eq_iff)
  then have "(10 :: int) ^ k mod 3 = 0" by simp
  moreover have "(10 :: int) ^ k mod 3 = 1"
    by (induction k) (simp_all add: mod_mult_right_eq [symmetric, of 10 _ 3] mod_mult_eq)
  ultimately show False by simp
qed


lemma band_values:
  "band 4 (1 / 2) = 2 / 5" "band 0 (2 / 5) = 12 / 25"
  by (simp_all add: band_def)

lemma band_keep: "1 \<le> c \<Longrightarrow> c \<le> 3 \<Longrightarrow> band c r = r"
  by (simp add: band_def)

lemma band_no_increase: "1 \<le> c \<Longrightarrow> 1 / 20 \<le> r \<Longrightarrow> 1 / 20 \<le> band c r \<and> band c r \<le> r"
  by (auto simp: band_def max_def)

lemma band_zero: "band 0 r = min (1 / 2) (r * (12 / 10))"
  by (simp add: band_def)

text \<open>
  Claim C3, as stated: from rate 0.5, after 10 outcomes with 4 losses and 10 further
  outcomes without a loss, the controller called after every outcome, the rate is 0.48
  wherever the 4 losses are. With the losses in the first four outcomes the rate is 0.4
  after the tenth outcome, still 0.4 while the window holds one to three losses, 0.48
  after the fourteenth (the window is free of losses) and 0.5 from the fifteenth on.
\<close>

theorem window_fill_scenario_counterexample:
  "error_rate (drive (init 0 (1 / 2))
      (feed ([True, True, True, True, False, False, False, False, False, False]
               @ replicate 10 False))) = 1 / 2 \<and>
   error_rate (drive (init 0 (1 / 2))
      (feed ([True, True, True, True, False, False, False, False, False, False]
               @ replicate 10 False))) \<noteq> 12 / 25"
  by code_simp

text \<open>
  Claim C3, amended. From rate 0.5, with the controller called after every recorded
  outcome: after 10 outcomes of which 4 are losses the rate is 0.4, wherever the losses
  are; after 10 further outcomes without a loss the rate is 0.48 exactly when the first
  and the tenth of the first 10 outcomes are both losses.
\<close>

theorem window_fill_scenario:
  assumes len: "length bs = 10" and cnt: "py_sum_bools bs = 4"
  shows "error_rate (drive (init t (1 / 2)) (feed bs)) = 2 / 5 \<and>
    (error_rate (drive (init t (1 / 2)) (feed (bs @ replicate 10 False))) = 12 / 25
       \<longleftrightarrow> hd bs \<and> last bs)"
proof -
  define R where "R j = error_rate (drive (init t (1 / 2)) (feed (bs @ replicate j False)))" for j
  define c where "c n = py_sum_bools (drop n bs)" for n
  have R0: "R 0 = 2 / 5"
    unfolding R_def using rate_after_ten [OF len, of t "1 / 2"] by (simp add: cnt band_values)
  have step: "R (Suc j) = band (c (Suc j)) (R j)" if "j < 10" for j
    unfolding R_def c_def by (rule rate_after_more [OF len that])
  have c10: "c 10 = 0" unfolding c_def using len by (simp add: py_sum_bools_def)
  have ne: "bs \<noteq> []" using len by auto
  have dec: "decimal (R j)" if "j \<le> 10" for j
    using that by (induction j) (simp_all add: R0 decimal_consts step decimal_band)
  have forward: "R 10 = 12 / 25" if h: "hd bs" and l: "last bs"
  proof -
    have keep: "R j = 2 / 5" if "j \<le> 9" for j
      using that
    proof (induction j)
      case 0
      show ?case by (rule R0)
    next
      case (Suc j)
      have "1 \<le> c (Suc j)" unfolding c_def using Suc.prems len by (intro count_with_last l) simp
      moreover have "c (Suc j) \<le> 3"
        unfolding c_def using count_without_head [OF h ne, of "Suc j"] cnt by simp
      ultimately have "band (c (Suc j)) (R j) = R j" by (rule band_keep)
      with Suc show ?case by (simp add: step)
    qed
    have "R 10 = band (c 10) (R 9)" using step [of 9] by simp
    then show ?thesis by (simp add: c10 keep band_values)
  qed
  have backward_head: "R 10 \<noteq> 12 / 25" if h: "\<not> hd bs" and l: "last bs"
  proof -
    have "c 1 = 4"
      unfolding c_def using h cnt ne by (cases bs) (simp_all add: py_sum_bools_Cons)
    then have R1: "R 1 = 8 / 25" using step [of 0] by (simp add: R0 band_def)
    have low: "1 / 20 \<le> R (Suc j) \<and> R (Suc j) \<le> 8 / 25" if "Suc j \<le> 9" for j
      using that
    proof (induction j)
      case 0
      show ?case using R1 by simp
    next
      case (Suc j)
      have "1 \<le> c (Suc (Suc j))"
        unfolding c_def using Suc.prems len by (intro count_with_last l) simp
      from band_no_increase [OF this, of "R (Suc j)"] Suc show ?case by (simp add: step)
    qed
    have "R 10 = band (c 10) (R 9)" using step [of 9] by simp
    then have "R 10 = min (1 / 2) (R 9 * (12 / 10))" by (simp add: c10 band_zero)
    moreover have "R 9 \<le> 8 / 25" using low [of 8] by simp
    ultimately show ?thesis by (simp add: min_def split: if_splits)
  qed
  have backward_last: "R 10 \<noteq> 12 / 25" if l: "\<not> last bs"
  proof
    assume a: "R 10 = 12 / 25"
    have "drop 9 bs = [last bs]"
      using len by (cases bs rule: rev_cases) auto
    then have "c 9 = 0" unfolding c_def using l by (simp add: py_sum_bools_Cons py_sum_bools_def)
    then have R9: "R 9 = min (1 / 2) (R 8 * (12 / 10))" using step [of 8] by (simp add: band_zero)
    have R10: "R 10 = min (1 / 2) (R 9 * (12 / 10))" using step [of 9] by (simp add: c10 band_zero)
    from a R10 have "R 9 = 2 / 5" by (simp add: min_def split: if_splits)
    with R9 have "R 8 = 1 / 3" by (simp add: min_def split: if_splits)
    with dec [of 8] not_decimal_third show False by simp
  qed
  have "R 0 = error_rate (drive (init t (1 / 2)) (feed bs))" unfolding R_def by simp
  moreover have "R 10 = error_rate (drive (init t (1 / 2)) (feed (bs @ replicate 10 False)))"
    unfolding R_def by simp
  ultimately show ?thesis using R0 forward backward_head backward_last by metis
qed

theorem window_fill_scenario_witness:
  "length [True, False, False, True, False, True, False, False, False, True] = 10 \<and>
   py_sum_bools [True, False, False, True, False, True, False, False, False, True] = 4 \<and>
   error_rate (drive (init 0 (1 / 2))
     (feed [True, False, False, True, False, True, False, False, False, True])) = 2 / 5 \<and>
   error_rate (drive (init 0 (1 / 2))
     (feed ([True, False, False, True, False, True, False, False, False, True]
              @ replicate 10 False))) = 12 / 25"
  using window_fill_scenario
    [of "[True, False, False, True, False, True, False, False, False, True]" 0]
  by (simp add: py_sum_bools_def)

section \<open>Evaluation\<close>

text \<open>
  The equations that evaluate the model on a concrete input. The recursive equations of
  the parser are unfolded only where the value they inspect is known: the weak
  congruence rules keep the simplifier out of the branches of a \<open>case\<close>.
\<close>

lemmas eval_defs = json_loads_def skip_ws_def is_ws_def starts_def match_number_def number_parts_def
  digits_def is_digit_def digits_value_def scan_escape_def parse_hex4_def hexval_def unescape_def
  parse_array.simps parse_object.simps py_getitem_def decode_def decode_try_def utf8_head_def
  cont_def low6_def Let_def encode_def encode_basestring_ascii_def escape_char_def key_text_def
  utf8_char_def int_repr_def int_max_str_digits_def

lemmas eval_congs =
  sum.case_cong_weak prod.case_cong_weak option.case_cong_weak list.case_cong_weak

lemmas sim_defs = transmit_def resume_def run_def init_def corrupt_data_def adjust_error_rate_def
  record_outcome_def transmission_error_def save_statistics_def get_statistics_def

lemmas attempt_defs =
  attempt_plain_def attempt_unencodable_def attempt_flipped_def attempt_unsaved_def

section \<open>Properties of the corruption model\<close>

lemma xor_mask_differs: "m \<noteq> 0 \<Longrightarrow> x XOR m \<noteq> (x :: byte)"
  by (metis xor.left_neutral xor_self_eq xor.assoc)

lemma corrupt_data_length: "length (corrupt_data rate d data) = length data"
  by (simp add: corrupt_data_def)

lemma corrupt_data_fired:
  assumes "data \<noteq> []" "rand_unit d < rate" "rand_pos d < length data" "rand_mask d \<noteq> 0"
    and "i < length data"
  shows "(corrupt_data rate d data ! i \<noteq> data ! i) = (i = rand_pos d)"
  using assms xor_mask_differs [of "rand_mask d" "data ! rand_pos d"]
  by (auto simp: corrupt_data_def nth_list_update)

lemma corrupt_data_obj_frame:
  assumes "data < length h"
  shows "case corrupt_data_obj rate d h data of (r, h') \<Rightarrow>
      (\<forall>a < length h. h' ! a = h ! a) \<and> r < length h' \<and> h' ! r = corrupt_data rate d (h ! data)"
  using assms
  by (auto simp: corrupt_data_obj_def corrupt_data_def alloc_def Let_def nth_append)

lemma corrupt_data_obj_same:
  assumes "h ! data = [] \<or> \<not> rand_unit d < rate"
  shows "corrupt_data_obj rate d h data = (data, h)"
  using assms by (auto simp: corrupt_data_obj_def)

lemma corrupt_data_obj_fresh:
  assumes "h ! data \<noteq> []" "rand_unit d < rate" "rand_pos d < length (h ! data)"
  shows "length h \<le> fst (corrupt_data_obj rate d h data)"
  using assms by (simp add: corrupt_data_obj_def alloc_def Let_def)

text \<open>
  Claim C7. \<^verbatim>\<open>corrupt_data\<close> never changes an object that exists when it is
  called, the input among them. It returns the input itself when the input is empty
  and when the draw does not fire. When the draw fires on a non-empty input (at rate
  1.0 every draw of \<^verbatim>\<open>random.random()\<close> does), it returns a new object of the
  length of the input that differs from the input in exactly one byte, the one at the
  position drawn.
\<close>

theorem corrupt_data_contract:
  assumes "data < length h"
  shows "case corrupt_data_obj rate d h data of (r, h') \<Rightarrow>
      (\<forall>a < length h. h' ! a = h ! a) \<and> r < length h' \<and>
      h' ! r = corrupt_data rate d (h ! data) \<and>
      (h ! data = [] \<longrightarrow> r = data \<and> h' = h) \<and>
      (\<not> rand_unit d < rate \<longrightarrow> r = data \<and> h' = h) \<and>
      (h ! data \<noteq> [] \<and> draws_ok d (length (h ! data)) \<and> (rand_unit d < rate \<or> 1 \<le> rate) \<longrightarrow>
         length h \<le> r \<and> length (h' ! r) = length (h ! data) \<and>
         (\<forall>i < length (h ! data). (h' ! r ! i \<noteq> h ! data ! i) = (i = rand_pos d)))"
proof -
  obtain r h' where res: "corrupt_data_obj rate d h data = (r, h')" by (cases "corrupt_data_obj rate d h data")
  from corrupt_data_obj_frame [OF assms, of rate d] res
  have frame: "\<forall>a < length h. h' ! a = h ! a" "r < length h'"
    and val: "h' ! r = corrupt_data rate d (h ! data)" by auto
  have same: "r = data \<and> h' = h" if "h ! data = [] \<or> \<not> rand_unit d < rate"
    using corrupt_data_obj_same [OF that] res by simp
  have fired: "length h \<le> r \<and> length (h' ! r) = length (h ! data) \<and>
         (\<forall>i < length (h ! data). (h' ! r ! i \<noteq> h ! data ! i) = (i = rand_pos d))"
    if ne: "h ! data \<noteq> []" and ok: "draws_ok d (length (h ! data))"
      and f: "rand_unit d < rate \<or> 1 \<le> rate"
  proof -
    have u: "rand_unit d < rate" using ok f by (auto simp: draws_ok_def)
    have p: "rand_pos d < length (h ! data)" and m: "rand_mask d \<noteq> 0"
      using ok by (simp_all add: draws_ok_def)
    from corrupt_data_obj_fresh [OF ne u p] res have "length h \<le> r" by simp
    then show ?thesis
      unfolding val using corrupt_data_fired [OF ne u p m] by (simp add: corrupt_data_length)
  qed
  show ?thesis unfolding res using frame val same fired by auto
qed

theorem corrupt_data_contract_witness:
  "(0 :: nat) < length [[1, 2, 3 :: byte]] \<and>
   corrupt_data_obj 1 \<lparr>rand_unit = 1 / 3, rand_pos = 1, rand_mask = 255\<rparr> [[1, 2, 3]] 0
     = (2, [[1, 2, 3], [1, 253, 3], [1, 253, 3]]) \<and>
   corrupt_data_obj (1 / 10) \<lparr>rand_unit = 1 / 3, rand_pos = 1, rand_mask = 255\<rparr> [[1, 2, 3]] 0
     = (0, [[1, 2, 3]])"
  using corrupt_data_contract [of 0 "[[1, 2, 3]]" 1 "\<lparr>rand_unit = 1 / 3, rand_pos = 1, rand_mask = 255\<rparr>"]
    corrupt_data_contract [of 0 "[[1, 2, 3]]" "1 / 10" "\<lparr>rand_unit = 1 / 3, rand_pos = 1, rand_mask = 255\<rparr>"]
  by (simp add: corrupt_data_obj_def alloc_def)

section \<open>Properties of the codec\<close>

lemma decode_total: "\<exists>v. decode depth bs = Inr v"
  by (simp add: decode_def split: sum.split)

lemma decode_failure: "decode_try depth bs = Inl e \<Longrightarrow> decode depth bs = Inr PNone"
  by (simp add: decode_def)

lemma decode_empty: "decode depth [] = Inr PNone"
  by (simp add: decode_def decode_try_def json_loads_def skip_ws_def)

text \<open>
  Claim C8. For every sequence of bytes, and whatever depth the stack leaves to
  \<^verbatim>\<open>json\<close>, \<^verbatim>\<open>Packet.decode\<close> returns a value and raises nothing. It returns
  \<^verbatim>\<open>None\<close> on the empty input, on bytes that are not UTF-8, on text that
  \<^verbatim>\<open>json.loads\<close> refuses (text that is not JSON, an integer of more than 4300
  digits, arrays and objects nested deeper than the stack allows), on JSON that is not
  an object, and on an object without the key \<^verbatim>\<open>"data"\<close>.
\<close>

theorem decode_never_raises:
  "(\<exists>v. decode depth bs = Inr v) \<and> decode depth [] = Inr PNone \<and>
   (\<forall>e. utf8_decode bs = Inl e \<longrightarrow> decode depth bs = Inr PNone) \<and>
   (\<forall>s e. utf8_decode bs = Inr s \<and> json_loads depth s = Inl e \<longrightarrow> decode depth bs = Inr PNone) \<and>
   (\<forall>s v. utf8_decode bs = Inr s \<and> json_loads depth s = Inr v \<and> (\<forall>kvs. v \<noteq> PDict kvs)
      \<longrightarrow> decode depth bs = Inr PNone) \<and>
   (\<forall>s kvs. utf8_decode bs = Inr s \<and> json_loads depth s = Inr (PDict kvs)
        \<and> map_of kvs (PStr (str ''data'')) = None
      \<longrightarrow> decode depth bs = Inr PNone)"
proof -
  have "decode depth bs = Inr PNone"
    if "utf8_decode bs = Inr s" "json_loads depth s = Inr v" "\<forall>kvs. v \<noteq> PDict kvs" for s v
    using that by (cases v) (simp_all add: decode_def decode_try_def py_getitem_def)
  then show ?thesis
    using decode_total [of depth bs] decode_empty
    by (auto simp: decode_def decode_try_def py_getitem_def)
qed

theorem decode_never_raises_witness:
  \<open>decode 900 (bytes ''{"x": 1}'') = Inr PNone \<and> decode 900 (bytes ''{"data": 1'') = Inr PNone
    \<and> decode 900 [0xFF] = Inr PNone \<and> decode 900 (bytes ''[1]'') = Inr PNone
    \<and> decode 1 (bytes ''{"data": [1]}'') = Inr PNone\<close>
proof -
  have a: \<open>utf8_decode (bytes ''{"x": 1}'') = Inr (str ''{"x": 1}'')\<close>
    by (simp add: eval_defs cong: eval_congs)
  have b: \<open>json_loads 900 (str ''{"x": 1}'') = Inr (PDict [(PStr (str ''x''), PInt 1)])\<close>
    by (simp add: eval_defs cong: eval_congs)
  have c: \<open>map_of [(PStr (str ''x''), PInt 1)] (PStr (str ''data'')) = None\<close> by simp
  have d: \<open>utf8_decode (bytes ''{"data": 1'') = Inr (str ''{"data": 1'')\<close>
    by (simp add: eval_defs cong: eval_congs)
  have e: \<open>json_loads 900 (str ''{"data": 1'') = Inl JSONDecodeError\<close>
    by (simp add: eval_defs cong: eval_congs)
  have f: "utf8_decode [0xFF] = Inl UnicodeDecodeError" by (simp add: eval_defs cong: eval_congs)
  have g: \<open>utf8_decode (bytes ''[1]'') = Inr (str ''[1]'')\<close>
    by (simp add: eval_defs cong: eval_congs)
  have h: \<open>json_loads 900 (str ''[1]'') = Inr (PList [PInt 1])\<close>
    by (simp add: eval_defs cong: eval_congs)
  have i: \<open>utf8_decode (bytes ''{"data": [1]}'') = Inr (str ''{"data": [1]}'')\<close>
    by (simp add: eval_defs cong: eval_congs)
  have j: \<open>json_loads 1 (str ''{"data": [1]}'') = Inl RecursionError\<close>
    by (simp add: eval_defs cong: eval_congs)
  from decode_never_raises [of 900 \<open>bytes ''{"x": 1}''\<close>] a b c
  have 1: \<open>decode 900 (bytes ''{"x": 1}'') = Inr PNone\<close> by blast
  from decode_never_raises [of 900 \<open>bytes ''{"data": 1''\<close>] d e
  have 2: \<open>decode 900 (bytes ''{"data": 1'') = Inr PNone\<close> by blast
  from decode_never_raises [of 900 "[0xFF]"] f have 3: "decode 900 [0xFF] = Inr PNone" by blast
  from decode_never_raises [of 900 \<open>bytes ''[1]''\<close>] g h
  have 4: \<open>decode 900 (bytes ''[1]'') = Inr PNone\<close> by blast
  from decode_never_raises [of 1 \<open>bytes ''{"data": [1]}''\<close>] i j
  have 5: \<open>decode 1 (bytes ''{"data": [1]}'') = Inr PNone\<close> by blast
  from 1 2 3 4 5 show ?thesis by blast
qed


section \<open>Properties of a transmission\<close>

lemma adjust_error_rate_frame:
  assumes "adjust_error_rate s = Inr s'"
  shows "env_now s' = env_now s \<and> latency_data s' = latency_data s \<and> packet_loss s' = packet_loss s \<and>
    successful_transmissions s' = successful_transmissions s \<and>
    total_transmissions s' = total_transmissions s \<and> adaptive_window s' = adaptive_window s \<and>
    min_error_rate s' = min_error_rate s \<and> max_error_rate s' = max_error_rate s"
  using assms by (auto simp: adjust_error_rate_def Let_def split: if_splits)

lemma adjust_error_rate_raises:
  "adjust_error_rate s = Inl e \<Longrightarrow> adaptive_window s = 0"
  by (auto simp: adjust_error_rate_def Let_def split: if_splits)

text \<open>The outcomes of an attempt: what the model of \<^verbatim>\<open>transmit\<close> returns, case by case.\<close>

lemma transmit_cases:
  obtains
    (encode_raises) e where "encode (depth_left a) (payload a) = Inl e" "transmit a s = transmission_error s"
  | (adjust_raises) bs v e where "encode (depth_left a) (payload a) = Inr bs"
      "decode (depth_left a) (corrupt_data (error_rate s) (rng a) bs) = Inr v"
      "adjust_error_rate (record_outcome 0 v s) = Inl e"
      "transmit a s = transmission_error (record_outcome 0 v s)"
  | (save_raises) bs v s' e where "encode (depth_left a) (payload a) = Inr bs"
      "decode (depth_left a) (corrupt_data (error_rate s) (rng a) bs) = Inr v"
      "adjust_error_rate (record_outcome 0 v s) = Inr s'"
      "save_statistics (save_raises a) s' = Inl e"
      "transmit a s = transmission_error s'"
  | (recorded) bs v s' where "encode (depth_left a) (payload a) = Inr bs"
      "decode (depth_left a) (corrupt_data (error_rate s) (rng a) bs) = Inr v"
      "adjust_error_rate (record_outcome 0 v s) = Inr s'"
      "save_statistics (save_raises a) s' = Inr ()"
      "transmit a s = s'"
  | (empty) "encode (depth_left a) (payload a) = Inr []" "transmit a s = transmission_error s"
proof (cases "encode (depth_left a) (payload a)")
  case (Inl e)
  then show ?thesis using encode_raises by (simp add: transmit_def)
next
  case (Inr bs)
  show ?thesis
  proof (cases "bs = []")
    case True
    then show ?thesis using Inr empty by (simp add: transmit_def)
  next
    case False
    obtain v where v: "decode (depth_left a) (corrupt_data (error_rate s) (rng a) bs) = Inr v"
      using decode_total by blast
    show ?thesis
    proof (cases "adjust_error_rate (record_outcome 0 v s)")
      case (Inl e)
      then show ?thesis using Inr False v adjust_raises by (simp add: transmit_def)
    next
      case (Inr s')
      note adj = this
      show ?thesis
      proof (cases "save_statistics (save_raises a) s'")
        case (Inl e)
        then show ?thesis using \<open>encode (depth_left a) (payload a) = Inr bs\<close> False v adj save_raises
          by (simp add: transmit_def)
      next
        case (Inr u)
        then show ?thesis using \<open>encode (depth_left a) (payload a) = Inr bs\<close> False v adj recorded
          by (simp add: transmit_def)
      qed
    qed
  qed
qed


lemma record_outcome_fields [simp]:
  "env_now (record_outcome l v s) = env_now s"
  "error_rate (record_outcome l v s) = error_rate s"
  "latency_data (record_outcome l v s) = latency_data s @ [l]"
  "packet_loss (record_outcome l v s) = packet_loss s @ [v = PNone]"
  "total_transmissions (record_outcome l v s) = total_transmissions s + 1"
  "successful_transmissions (record_outcome l v s)
     = successful_transmissions s + (if v = PNone then 0 else 1)"
  "adaptive_window (record_outcome l v s) = adaptive_window s"
  "min_error_rate (record_outcome l v s) = min_error_rate s"
  "max_error_rate (record_outcome l v s) = max_error_rate s"
  by (simp_all add: record_outcome_def Let_def)

lemma transmission_error_fields [simp]:
  "env_now (transmission_error s) = env_now s"
  "error_rate (transmission_error s) = error_rate s"
  "latency_data (transmission_error s) = latency_data s"
  "packet_loss (transmission_error s) = packet_loss s @ [True]"
  "total_transmissions (transmission_error s) = total_transmissions s + 1"
  "successful_transmissions (transmission_error s) = successful_transmissions s"
  "adaptive_window (transmission_error s) = adaptive_window s"
  "min_error_rate (transmission_error s) = min_error_rate s"
  "max_error_rate (transmission_error s) = max_error_rate s"
  by (simp_all add: transmission_error_def)

lemma utf8_char_nonempty: "utf8_char c = Inr bs \<Longrightarrow> bs \<noteq> []"
  by (auto simp: utf8_char_def split: if_splits)

lemma encode_nonempty: "encode depth p \<noteq> Inr []"
proof
  assume a: "encode depth p = Inr []"
  then obtain t where t: "json_dumps depth (PDict [(PStr (str ''data''), p)]) = Inr t"
    and u: "utf8_encode t = Inr []"
    by (auto simp: encode_def split: sum.splits)
  from t obtain t' where "t = ord CHR ''{'' # t'"
    by (auto simp: key_text_def split: sum.splits if_splits)
  with u show False
    by (auto split: sum.splits dest: utf8_char_nonempty)
qed

lemma save_statistics_ok:
  "latency_data s \<noteq> [] \<Longrightarrow> packet_loss s \<noteq> [] \<Longrightarrow> save_statistics False s = Inr ()"
  by (simp add: save_statistics_def get_statistics_def)

lemma transmit_window [simp]: "adaptive_window (transmit a s) = adaptive_window s"
  by (cases a s rule: transmit_cases) (auto dest: adjust_error_rate_frame)

lemma transmit_latency_zero: "set (latency_data (transmit a s)) \<subseteq> insert 0 (set (latency_data s))"
  by (cases a s rule: transmit_cases) (auto dest!: adjust_error_rate_frame)

lemma transmit_loss_total:
  "length (packet_loss s) = total_transmissions s \<Longrightarrow>
   length (packet_loss (transmit a s)) = total_transmissions (transmit a s)"
  by (cases a s rule: transmit_cases) (auto dest!: adjust_error_rate_frame)

lemma transmit_latency_le:
  "length (latency_data s) \<le> length (packet_loss s) \<Longrightarrow>
   length (latency_data (transmit a s)) \<le> length (packet_loss (transmit a s))"
  by (cases a s rule: transmit_cases) (auto dest!: adjust_error_rate_frame)

lemma transmit_recorded:
  assumes "encode (depth_left a) (payload a) = Inr bs" "decode (depth_left a) (corrupt_data (error_rate s) (rng a) bs) = Inr v"
    and "0 < adaptive_window s"
  shows "\<exists>s'. adjust_error_rate (record_outcome 0 v s) = Inr s' \<and>
     transmit a s = (if save_raises a then transmission_error s' else s')"
proof (cases a s rule: transmit_cases)
  case (adjust_raises bs' v' e)
  then show ?thesis using assms by (auto dest: adjust_error_rate_raises)
next
  case (save_raises bs' v' s' e)
  have "latency_data s' \<noteq> []" "packet_loss s' \<noteq> []"
    using adjust_error_rate_frame [OF save_raises(3)] by simp_all
  from save_statistics_ok [OF this] save_raises assms show ?thesis by (cases "save_raises a") auto
next
  case (recorded bs' v' s')
  then show ?thesis using assms by (auto simp: save_statistics_def split: sum.splits if_splits)
qed (use assms encode_nonempty [of "depth_left a" "payload a"] in auto)

text \<open>
  An attempt that reaches the decode step and writes its statistics moves the
  controller as one recorded outcome followed by one call does.
\<close>

lemma transmit_feeds_controller:
  assumes "encode (depth_left a) (payload a) = Inr bs"
    and "decode (depth_left a) (corrupt_data (error_rate s) (rng a) bs) = Inr v"
    and "0 < adaptive_window s" "\<not> save_raises a"
  shows "packet_loss (transmit a s) = packet_loss (drive s (feed [v = PNone])) \<and>
    error_rate (transmit a s) = error_rate (drive s (feed [v = PNone]))"
proof -
  from transmit_recorded [OF assms(1-3)] assms(4) obtain s' where
    adj: "adjust_error_rate (record_outcome 0 v s) = Inr s'" and t: "transmit a s = s'" by auto
  have w: "0 < adaptive_window (record_outcome 0 v s)"
    "0 < adaptive_window (s\<lparr>packet_loss := packet_loss s @ [v = PNone]\<rparr>)"
    using assms(3) by simp_all
  show ?thesis
    using adj unfolding t
    by (simp add: adjust_error_rate_spec [OF w(1)] adjust_error_rate_spec [OF w(2)]
        drive_def feed_def) auto
qed

lemma transmit_counts:
  assumes "0 < adaptive_window s" "\<not> save_raises a"
  shows "total_transmissions (transmit a s) = total_transmissions s + 1 \<and>
    length (latency_data (transmit a s))
      = length (latency_data s) + (if reaches_decode a then 1 else 0)"
proof (cases "encode (depth_left a) (payload a)")
  case (Inl e)
  then show ?thesis by (simp add: transmit_def reaches_decode_def)
next
  case (Inr bs)
  obtain v where v: "decode (depth_left a) (corrupt_data (error_rate s) (rng a) bs) = Inr v"
    using decode_total by blast
  from transmit_recorded [OF Inr v assms(1)] assms(2) obtain s' where
    "adjust_error_rate (record_outcome 0 v s) = Inr s'" "transmit a s = s'" by auto
  then show ?thesis using Inr by (auto simp: reaches_decode_def dest!: adjust_error_rate_frame)
qed


lemma resume_fields:
  "adaptive_window (resume s a) = adaptive_window s"
  "set (latency_data (resume s a)) \<subseteq> insert 0 (set (latency_data s))"
  "length (packet_loss s) = total_transmissions s \<Longrightarrow>
     length (packet_loss (resume s a)) = total_transmissions (resume s a)"
  "length (latency_data s) \<le> length (packet_loss s) \<Longrightarrow>
     length (latency_data (resume s a)) \<le> length (packet_loss (resume s a))"
  unfolding resume_def
  using transmit_latency_zero [of a "s\<lparr>env_now := resumed_at a\<rparr>"]
    transmit_loss_total [of "s\<lparr>env_now := resumed_at a\<rparr>" a]
    transmit_latency_le [of "s\<lparr>env_now := resumed_at a\<rparr>" a]
  by simp_all

lemma resume_counts:
  assumes "0 < adaptive_window s" "\<not> save_raises a"
  shows "total_transmissions (resume s a) = total_transmissions s + 1"
    "length (latency_data (resume s a))
      = length (latency_data s) + (if reaches_decode a then 1 else 0)"
  unfolding resume_def
  using transmit_counts [of "s\<lparr>env_now := resumed_at a\<rparr>" a] assms by simp_all

lemma run_snoc: "run s (attempts @ [a]) = resume (run s attempts) a"
  by (simp add: run_def)

lemma run_invariants:
  assumes "length (packet_loss s) = total_transmissions s"
    "length (latency_data s) \<le> length (packet_loss s)" "set (latency_data s) \<subseteq> {0}"
  shows "adaptive_window (run s attempts) = adaptive_window s \<and>
    length (packet_loss (run s attempts)) = total_transmissions (run s attempts) \<and>
    length (latency_data (run s attempts)) \<le> length (packet_loss (run s attempts)) \<and>
    set (latency_data (run s attempts)) \<subseteq> {0}"
proof (induction attempts rule: rev_induct)
  case Nil
  then show ?case using assms by (simp add: run_def)
next
  case (snoc a attempts)
  then show ?case
    using resume_fields [of "run s attempts" a] by (auto simp: run_snoc)
qed

lemma run_counts:
  assumes "0 < adaptive_window s" "\<forall>a \<in> set attempts. \<not> save_raises a"
  shows "total_transmissions (run s attempts) = total_transmissions s + length attempts \<and>
    length (latency_data (run s attempts))
      = length (latency_data s) + length (filter reaches_decode attempts) \<and>
    adaptive_window (run s attempts) = adaptive_window s"
  using assms(2)
proof (induction attempts rule: rev_induct)
  case Nil
  then show ?case by (simp add: run_def)
next
  case (snoc a attempts)
  then have ih: "total_transmissions (run s attempts) = total_transmissions s + length attempts"
    "length (latency_data (run s attempts))
      = length (latency_data s) + length (filter reaches_decode attempts)"
    "adaptive_window (run s attempts) = adaptive_window s" by simp_all
  have w: "0 < adaptive_window (run s attempts)" using ih assms by simp
  have ns: "\<not> save_raises a" using snoc.prems by simp
  from resume_counts [OF w ns] resume_fields(1) [of "run s attempts" a] ih show ?case
    by (simp add: run_snoc)
qed

text \<open>
  Claim C4, as stated: after every attempt, one whose encoding raises included, the
  latency history and the loss history have one length. The handler of
  \<^verbatim>\<open>transmit\<close> (lines 79 to 82) appends a loss and no latency: after one attempt
  whose payload \<^verbatim>\<open>json.dumps\<close> cannot encode, the latency history is empty and the
  loss history has one entry.
\<close>

theorem history_lengths_counterexample:
  "latency_data (run (init 0 (1 / 10)) [attempt_unencodable]) = [] \<and>
   packet_loss (run (init 0 (1 / 10)) [attempt_unencodable]) = [True] \<and>
   total_transmissions (run (init 0 (1 / 10)) [attempt_unencodable]) = 1 \<and>
   length (latency_data (run (init 0 (1 / 10)) [attempt_unencodable]))
     \<noteq> length (packet_loss (run (init 0 (1 / 10)) [attempt_unencodable]))"
  by (simp add: attempt_defs sim_defs eval_defs cong: eval_congs)

text \<open>
  Claim C4, amended. After every sequence of attempts the loss history is as long as
  \<^verbatim>\<open>total_transmissions\<close> counts, and the latency history is at most as long. When
  the statistics are written without an exception, \<^verbatim>\<open>total_transmissions\<close> is the
  number of attempts and the latency history has one entry for each attempt whose
  encoding returned; so the three are equal exactly when no encoding raised.
\<close>

theorem history_lengths:
  "length (packet_loss (run (init t r) attempts)) = total_transmissions (run (init t r) attempts) \<and>
   length (latency_data (run (init t r) attempts)) \<le> length (packet_loss (run (init t r) attempts)) \<and>
   ((\<forall>a \<in> set attempts. \<not> save_raises a) \<longrightarrow>
      total_transmissions (run (init t r) attempts) = length attempts \<and>
      length (latency_data (run (init t r) attempts)) = length (filter reaches_decode attempts))"
proof -
  have i: "length (packet_loss (init t r)) = total_transmissions (init t r)"
    "length (latency_data (init t r)) \<le> length (packet_loss (init t r))"
    "set (latency_data (init t r)) \<subseteq> {0}" "0 < adaptive_window (init t r)"
    "total_transmissions (init t r) = 0" "latency_data (init t r) = []"
    by (simp_all add: init_def)
  from run_invariants [OF i(1-3), of attempts] run_counts [OF i(4), of attempts] i(5,6)
  show ?thesis by simp
qed

theorem history_lengths_witness:
  "\<not> save_raises attempt_plain \<and> \<not> save_raises attempt_unencodable \<and>
   reaches_decode attempt_plain \<and> \<not> reaches_decode attempt_unencodable \<and>
   length (packet_loss (run (init 0 (1 / 10)) [attempt_plain, attempt_unencodable])) = 2 \<and>
   total_transmissions (run (init 0 (1 / 10)) [attempt_plain, attempt_unencodable]) = 2 \<and>
   length (latency_data (run (init 0 (1 / 10)) [attempt_plain, attempt_unencodable])) = 1"
proof -
  have a: "\<not> save_raises attempt_plain" "\<not> save_raises attempt_unencodable"
    by (simp_all add: attempt_defs)
  have b: "reaches_decode attempt_plain" "\<not> reaches_decode attempt_unencodable"
    by (simp_all add: reaches_decode_def attempt_defs eval_defs cong: eval_congs)
  from history_lengths [of 0 "1 / 10" "[attempt_plain, attempt_unencodable]"] a b show ?thesis by simp
qed

lemma sum_list_zeros: "set xs \<subseteq> {0} \<Longrightarrow> sum_list xs = (0 :: rat)"
  by (induction xs) auto

text \<open>
  Claim C10. Every latency in the latency history is 0: \<^verbatim>\<open>start_time\<close> is read
  after the process has been resumed, and nothing between that and the second reading
  of \<^verbatim>\<open>env.now\<close> gives control back to the scheduler. So the average latency of
  every snapshot with data is 0.
\<close>

theorem latency_always_zero:
  "set (latency_data (run (init t r) attempts)) \<subseteq> {0} \<and>
   (\<forall>st. get_statistics (run (init t r) attempts) = Inr st \<and> st \<noteq> NoData
      \<longrightarrow> average_latency st = 0)"
proof -
  have i: "length (packet_loss (init t r)) = total_transmissions (init t r)"
    "length (latency_data (init t r)) \<le> length (packet_loss (init t r))"
    "set (latency_data (init t r)) \<subseteq> {0}"
    by (simp_all add: init_def)
  from run_invariants [OF i, of attempts]
  have z: "set (latency_data (run (init t r) attempts)) \<subseteq> {0}" by simp
  then have "sum_list (latency_data (run (init t r) attempts)) = 0"
    by (rule sum_list_zeros)
  with z show ?thesis
    by (auto simp: get_statistics_def split: if_splits)
qed

theorem latency_always_zero_witness:
  "latency_data (run (init 0 (1 / 10)) [attempt_plain, attempt_unencodable]) = [0] \<and>
   get_statistics (run (init 0 (1 / 10)) [attempt_plain, attempt_unencodable])
     = Inr (Statistics 2 1 0 (1 / 2) (1 / 10)) \<and>
   average_latency (Statistics 2 1 0 (1 / 2) (1 / 10)) = 0"
proof -
  have s: "get_statistics (run (init 0 (1 / 10)) [attempt_plain, attempt_unencodable])
     = Inr (Statistics 2 1 0 (1 / 2) (1 / 10))"
    by (simp add: attempt_defs sim_defs eval_defs py_sum_bools_def cong: eval_congs)
  have l: "length (latency_data (run (init 0 (1 / 10)) [attempt_plain, attempt_unencodable])) = 1"
    by (simp add: attempt_defs sim_defs eval_defs cong: eval_congs)
  from latency_always_zero [of 0 "1 / 10" "[attempt_plain, attempt_unencodable]"] s l show ?thesis
    by (cases "latency_data (run (init 0 (1 / 10)) [attempt_plain, attempt_unencodable])") auto
qed

text \<open>
  Claim C5 says that an exception of \<^verbatim>\<open>save_statistics\<close> leaves the recorded
  state as it is. The call (line 77) is inside the \<^verbatim>\<open>try\<close> whose handler records
  a lost transmission: one attempt that decodes its payload and then fails to write the
  statistics leaves two entries in the loss history, the second a loss, and counts as
  two transmissions.
\<close>

theorem persistence_failure_recorded_as_loss:
  "transmit attempt_unsaved (init 0 (1 / 10)) =
     (init 0 (1 / 10))\<lparr>latency_data := [0], packet_loss := [False, True],
        successful_transmissions := 1, total_transmissions := 2\<rparr>"
  by (simp add: attempt_defs sim_defs eval_defs cong: eval_congs)

text \<open>
  Claim C9, as stated: the recorded flag says whether the decoded value differs from
  the payload. Line 70 records \<^verbatim>\<open>decoded_data is None\<close>. The payload \<^verbatim>\<open>"a"\<close>
  is encoded as \<^verbatim>\<open>{"data": "a"}\<close>; with byte 10 XORed with 3 the bytes read
  \<^verbatim>\<open>{"data": "b"}\<close> and decode to \<^verbatim>\<open>"b"\<close>, and the attempt is recorded as not
  lost.
\<close>

theorem lost_flag_counterexample:
  \<open>payload attempt_flipped = PStr (str ''a'') \<and>
   encode (depth_left attempt_flipped) (payload attempt_flipped) = Inr (bytes ''{"data": "a"}'') \<and>
   corrupt_data (1 / 2) (rng attempt_flipped) (bytes ''{"data": "a"}'') = bytes ''{"data": "b"}'' \<and>
   decode (depth_left attempt_flipped) (bytes ''{"data": "b"}'') = Inr (PStr (str ''b'')) \<and>
   packet_loss (transmit attempt_flipped (init 0 (1 / 2))) = [False]\<close>
  by (simp add: attempt_defs sim_defs eval_defs cong: eval_congs)

text \<open>
  Claim C9, amended. For every attempt that reaches the decode step, the flag recorded
  for it is true exactly when \<^verbatim>\<open>Packet.decode\<close> returns \<^verbatim>\<open>None\<close>, and
  \<^verbatim>\<open>successful_transmissions\<close> grows by one exactly when it does not. (A payload
  recovered is recorded as not lost unless it is \<^verbatim>\<open>None\<close>; a different payload
  decoded from corrupted bytes is recorded as not lost too.)
\<close>

theorem lost_flag_is_decode_failure:
  assumes "encode (depth_left a) (payload a) = Inr bs"
    and "decode (depth_left a) (corrupt_data (error_rate s) (rng a) bs) = Inr v"
    and "0 < adaptive_window s"
  shows "take (Suc (length (packet_loss s))) (packet_loss (transmit a s))
       = packet_loss s @ [v = PNone] \<and>
     successful_transmissions (transmit a s)
       = successful_transmissions s + (if v = PNone then 0 else 1)"
proof -
  from transmit_recorded [OF assms] obtain s' where
    adj: "adjust_error_rate (record_outcome 0 v s) = Inr s'"
    and t: "transmit a s = (if save_raises a then transmission_error s' else s')" by blast
  from adjust_error_rate_frame [OF adj] show ?thesis unfolding t by simp
qed

theorem lost_flag_is_decode_failure_witness:
  \<open>encode (depth_left attempt_flipped) (payload attempt_flipped) = Inr (bytes ''{"data": "a"}'') \<and>
   decode (depth_left attempt_flipped)
       (corrupt_data (error_rate (init 0 (1 / 2))) (rng attempt_flipped) (bytes ''{"data": "a"}''))
     = Inr (PStr (str ''b'')) \<and>
   0 < adaptive_window (init 0 (1 / 2)) \<and>
   take 1 (packet_loss (transmit attempt_flipped (init 0 (1 / 2)))) = [False] \<and>
   successful_transmissions (transmit attempt_flipped (init 0 (1 / 2))) = 1\<close>
proof -
  have e: \<open>encode (depth_left attempt_flipped) (payload attempt_flipped) = Inr (bytes ''{"data": "a"}'')\<close>
    by (simp add: attempt_defs eval_defs cong: eval_congs)
  have d: \<open>decode (depth_left attempt_flipped) (corrupt_data (error_rate (init 0 (1 / 2)))
      (rng attempt_flipped) (bytes ''{"data": "a"}'')) = Inr (PStr (str ''b''))\<close>
    by (simp add: attempt_defs init_def corrupt_data_def eval_defs cong: eval_congs)
  have w: "0 < adaptive_window (init 0 (1 / 2))" by (simp add: init_def)
  have p: "packet_loss (init 0 (1 / 2)) = []" "successful_transmissions (init 0 (1 / 2)) = 0"
    by (simp_all add: init_def)
  from lost_flag_is_decode_failure [OF e d w] p e d w show ?thesis by simp
qed

section \<open>The round trip through the codec\<close>

subsection \<open>Strings\<close>
















subsection \<open>Integers\<close>
















subsection \<open>Lists and dictionaries\<close>



lemma skip_ws_simps [simp]:
  "skip_ws [] = []" "skip_ws (32 # s) = skip_ws s"
  "\<not> is_ws c \<Longrightarrow> skip_ws (c # s) = c # s"
  by (simp_all add: skip_ws_def is_ws_def)

lemma not_ws [simp]:
  "\<not> is_ws 34" "\<not> is_ws 44" "\<not> is_ws 58" "\<not> is_ws 93" "\<not> is_ws 125" "\<not> is_ws 91" "\<not> is_ws 123"
  by (simp_all add: is_ws_def)









lemma ascii_append [simp]: "ascii (a @ b) \<longleftrightarrow> ascii a \<and> ascii b"
  by (simp add: ascii_def)

lemma ascii_Cons [simp]: "ascii (c # cs) \<longleftrightarrow> c < 128 \<and> ascii cs" and ascii_Nil [simp]: "ascii []"
  by (simp_all add: ascii_def)

























subsection \<open>Bytes\<close>








end
